theory Spec2Isabelle
  imports Complex_Main
begin

section \<open>Regular expressions as Python's \<open>re\<close> module runs them\<close>

text \<open>
  \<open>clean_text\<close> of \<open>article_processor.py\<close> is five \<open>re.sub\<close> calls and a \<open>strip\<close>.
  A Python \<open>str\<close> is a sequence of code points; a \<open>char\<close> stands here for a code point
  below 256. The patterns are embedded as values of \<open>rx\<close> and run by a backtracking
  matcher that returns every way to match at a position, in the order in which the
  \<open>re\<close> engine tries them, so that the head of the list is the match Python reports.
  Repetition occurs in the five patterns on one-character classes only.
\<close>

datatype rx =
    Cls "char \<Rightarrow> bool"
  | Seq rx rx
  | Alt rx rx
  | StarG "char \<Rightarrow> bool"
  | StarL "char \<Rightarrow> bool"
  | Bol
  | Eol

text \<open>
  A position is the text still to be read and a flag telling whether the position is at
  the beginning of a line: at the start of the text or just behind a line feed, which
  is where \<open>^\<close> matches under \<open>re.MULTILINE\<close>. \<open>$\<close> matches under \<open>re.MULTILINE\<close> at the
  end of the text and just before a line feed.
\<close>

type_synonym pos = "bool \<times> string"

definition newline :: char where
  "newline = CHR 0x0A"

fun ms :: "rx \<Rightarrow> pos \<Rightarrow> pos list" where
  "ms (Cls P) (b, s) =
     (case s of [] \<Rightarrow> [] | c # cs \<Rightarrow> if P c then [(c = newline, cs)] else [])"
| "ms (Seq r1 r2) p = concat (map (ms r2) (ms r1 p))"
| "ms (Alt r1 r2) p = ms r1 p @ ms r2 p"
| "ms (StarG P) (b, s) =
     (case s of [] \<Rightarrow> [(b, s)]
      | c # cs \<Rightarrow> if P c then ms (StarG P) (c = newline, cs) @ [(b, s)] else [(b, s)])"
| "ms (StarL P) (b, s) =
     (b, s) # (case s of [] \<Rightarrow> []
      | c # cs \<Rightarrow> if P c then ms (StarL P) (c = newline, cs) else [])"
| "ms Bol (b, s) = (if b then [(b, s)] else [])"
| "ms Eol (b, s) = (if s = [] \<or> hd s = newline then [(b, s)] else [])"


text \<open>
  \<open>re.sub(pattern, repl, text)\<close> for a replacement without group references: the text
  is scanned from the left, the leftmost match at each position is replaced, and the
  scan goes on behind it. Behind an empty match the engine must advance: it takes the
  first match at that position that consumes a character, and otherwise copies one
  character (CPython, \<open>pattern_subx\<close> and \<open>must_advance\<close>).
\<close>

function sub :: "rx \<Rightarrow> string \<Rightarrow> bool \<Rightarrow> pos \<Rightarrow> string" where
  "sub r repl adv (b, s) =
     (if adv then
        (case filter (\<lambda>(b', s'). length s' < length s) (ms r (b, s)) of
           [] \<Rightarrow> (case s of [] \<Rightarrow> [] | c # cs \<Rightarrow> c # sub r repl False (c = newline, cs))
         | (b', s') # _ \<Rightarrow> repl @ sub r repl False (b', s'))
      else
        (case ms r (b, s) of
           [] \<Rightarrow> (case s of [] \<Rightarrow> [] | c # cs \<Rightarrow> c # sub r repl False (c = newline, cs))
         | (b', s') # _ \<Rightarrow>
             if length s' < length s then repl @ sub r repl False (b', s')
             else repl @ sub r repl True (b, s)))"
  by pat_completeness auto
termination
proof (relation "measure (\<lambda>(r, repl, adv, b, s). 2 * length s + (if adv then 0 else 1))",
    goal_cases)
  case (3 r repl adv b s p ps b' s')
  from 3(2) have "p \<in> set (filter (\<lambda>(b', s'). length s' < length s) (ms r (b, s)))"
    by simp
  with 3(3) have "length s' < length s" by auto
  with 3(3) show ?case by auto
qed auto

definition re_sub :: "rx \<Rightarrow> string \<Rightarrow> string \<Rightarrow> string" where
  "re_sub r repl text = sub r repl False (True, text)"

subsection \<open>Character classes\<close>

text \<open>
  \<open>\s\<close> in a \<open>str\<close> pattern and \<open>str.strip()\<close> both use the Unicode white space test; below
  256 it holds of the code points 9 to 13, 28 to 32, 133 and 160.
\<close>

definition is_space :: "char \<Rightarrow> bool" where
  "is_space c \<longleftrightarrow>
     c = CHR 0x09 \<or> c = CHR 0x0A \<or> c = CHR 0x0B \<or> c = CHR 0x0C \<or> c = CHR 0x0D \<or>
     c = CHR 0x1C \<or> c = CHR 0x1D \<or> c = CHR 0x1E \<or> c = CHR 0x1F \<or> c = CHR 0x20 \<or>
     c = CHR 0x85 \<or> c = CHR 0xA0"

text \<open>
  Case folding of the ASCII letters. The patterns hold ASCII characters only, and no
  other code point below 256 folds to an ASCII letter.
\<close>

definition lower :: "char \<Rightarrow> char" where
  "lower c =
     (case map_of (zip ''ABCDEFGHIJKLMNOPQRSTUVWXYZ'' ''abcdefghijklmnopqrstuvwxyz'') c of
        Some l \<Rightarrow> l
      | None \<Rightarrow> c)"

text \<open>A bracketed set of characters, read with or without \<open>re.IGNORECASE\<close>.\<close>

definition cset :: "string \<Rightarrow> bool \<Rightarrow> char \<Rightarrow> bool" where
  "cset chars ignorecase c \<longleftrightarrow>
     c \<in> set chars \<or> (ignorecase \<and> lower c \<in> set (map lower chars))"

definition blank :: "char \<Rightarrow> bool" where
  "blank = cset [CHR 0x20, CHR 0x09] True"

definition dot_or_space :: "char \<Rightarrow> bool" where
  "dot_or_space c \<longleftrightarrow> cset ''.'' True c \<or> is_space c"

fun seqs :: "rx \<Rightarrow> rx list \<Rightarrow> rx" where
  "seqs r [] = r"
| "seqs r (x # xs) = Seq r (seqs x xs)"

text \<open>A literal run of characters under \<open>re.IGNORECASE\<close>.\<close>

definition lit :: "string \<Rightarrow> rx list" where
  "lit w = map (\<lambda>c. Cls (cset [c] True)) w"

definition plusG :: "(char \<Rightarrow> bool) \<Rightarrow> rx" where
  "plusG P = Seq (Cls P) (StarG P)"

subsection \<open>The five patterns of \<open>clean_text\<close>\<close>

text \<open>\<^verbatim>\<open><\s*[Tt][Hh][Ii][Nn][Kk]\s*>.*?</\s*[Tt][Hh][Ii][Nn][Kk]\s*>\<close> with
  \<open>re.IGNORECASE | re.DOTALL\<close>.\<close>

definition think_word :: "rx list" where
  "think_word = [Cls (cset ''Tt'' True), Cls (cset ''Hh'' True), Cls (cset ''Ii'' True),
                 Cls (cset ''Nn'' True), Cls (cset ''Kk'' True)]"

definition think_block :: rx where
  "think_block =
     seqs (Cls (cset ''<'' True))
       ([StarG is_space] @ think_word @ [StarG is_space, Cls (cset ''>'' True),
        StarL (\<lambda>c. True),
        Cls (cset ''<'' True), Cls (cset ''/'' True), StarG is_space] @ think_word @
        [StarG is_space, Cls (cset ''>'' True)])"

text \<open>\<^verbatim>\<open>[Tt][Hh][Ii][Nn][Kk][\.\s]*\.+\s*done thinking\.\<close> with \<open>re.IGNORECASE\<close>.\<close>

definition think_done :: rx where
  "think_done =
     seqs (hd think_word)
       (tl think_word @ [StarG dot_or_space, plusG (cset ''.'' True), StarG is_space] @
        lit ''done thinking.'')"

text \<open>\<^verbatim>\<open>^[ \t]*[Tt][Hh][Ii][Nn][Kk][Ii][Nn][Gg][ \t]*$\<close> with
  \<open>re.IGNORECASE | re.MULTILINE\<close>.\<close>

definition thinking_line :: rx where
  "thinking_line =
     seqs Bol
       ([StarG blank] @ think_word @
        [Cls (cset ''Ii'' True), Cls (cset ''Nn'' True), Cls (cset ''Gg'' True),
         StarG blank, Eol])"

text \<open>\<^verbatim>\<open>^[ \t]+|[ \t]+$\<close> with \<open>re.MULTILINE\<close>.\<close>

definition line_edges :: rx where
  "line_edges =
     Alt (Seq Bol (plusG (cset [CHR 0x20, CHR 0x09] False)))
         (Seq (plusG (cset [CHR 0x20, CHR 0x09] False)) Eol)"

text \<open>\<^verbatim>\<open>\s+\<close>.\<close>

definition spaces :: rx where
  "spaces = plusG is_space"

subsection \<open>\<open>clean_text\<close>\<close>

definition strip :: "string \<Rightarrow> string" where
  "strip s = rev (dropWhile is_space (rev (dropWhile is_space s)))"

definition clean_text :: "string \<Rightarrow> string" where
  "clean_text text =
     (if text = [] then []
      else
        let text = re_sub think_block [] text;
            text = re_sub think_done [] text;
            text = re_sub thinking_line [] text;
            text = re_sub line_edges [] text
        in strip (re_sub spaces '' '' text))"


section \<open>The orchestrator of \<open>article_processor.py\<close>\<close>

text \<open>
  Everything outside the process is an oracle that answers from the history of the
  run, the list of effects performed so far: the server may answer one query and fail
  the next. \<open>None\<close> stands for a raised \<open>requests.RequestException\<close> (connection error,
  timeout or a status that \<open>raise_for_status\<close> rejects). The listing queries answer
  with the names of the \<open>models\<close> array, the page query with the text BeautifulSoup
  extracts, the generation query with the \<open>response\<close> field when the body has one.
  Narration on standard error is left out; every request, every cache access and
  every line on standard output is an event.
\<close>

datatype event =
    GetTags
  | GetPs
  | PostUnload string
  | GetPage string
  | ReadCache
  | WriteCache string
  | PostGenerate string string
  | Stdout string

record world =
  tags :: "event list \<Rightarrow> string list option"
  ps :: "event list \<Rightarrow> string list option"
  unload :: "event list \<Rightarrow> bool"
  page :: "event list \<Rightarrow> string option"
  generate :: "event list \<Rightarrow> string option option"
  clock :: "event list \<Rightarrow> real"

text \<open>The cache file of the URL: its text and its modification time, when it exists.\<close>

record state =
  trace :: "event list"
  cache :: "(string \<times> real) option"

definition note_event :: "event \<Rightarrow> state \<Rightarrow> state" where
  "note_event e st = st\<lparr>trace := trace st @ [e]\<rparr>"

text \<open>A step ends in \<open>Inl code\<close>, for \<open>sys.exit(code)\<close>, or in \<open>Inr\<close> its value.\<close>

type_synonym 'a step = "(int + 'a) \<times> state"

definition check_ollama_server :: "world \<Rightarrow> string \<Rightarrow> state \<Rightarrow> unit step" where
  "check_ollama_server w host st =
     (if host = [] then (Inl 1, st)
      else case tags w (trace st) of
             None \<Rightarrow> (Inl 1, note_event GetTags st)
           | Some models \<Rightarrow> (Inr (), note_event GetTags st))"

definition check_model_available :: "world \<Rightarrow> string \<Rightarrow> string \<Rightarrow> state \<Rightarrow> unit step" where
  "check_model_available w host model st =
     (if host = [] then (Inl 1, st)
      else case tags w (trace st) of
             None \<Rightarrow> (Inl 1, note_event GetTags st)
           | Some models \<Rightarrow>
               if \<not> (\<exists>m \<in> set models. m = model) then (Inl 1, note_event GetTags st)
               else (Inr (), note_event GetTags st))"

text \<open>The loop of \<open>unload_ollama_models\<close>: the state and the count of failed unloads.\<close>

fun unload_loop :: "world \<Rightarrow> string list \<Rightarrow> nat \<times> state \<Rightarrow> nat \<times> state" where
  "unload_loop w [] (errs, st) = (errs, st)"
| "unload_loop w (model_name # rest) (errs, st) =
     (if \<not> unload w (trace st) then
        unload_loop w rest (errs + 1, note_event (PostUnload model_name) st)
      else
        let st1 = note_event (PostUnload model_name) st in
        case ps w (trace st1) of
          None \<Rightarrow> unload_loop w rest (errs + 1, note_event GetPs st1)
        | Some still \<Rightarrow>
            if \<exists>m \<in> set still. m = model_name
            then unload_loop w rest (errs + 1, note_event GetPs st1)
            else unload_loop w rest (errs, note_event GetPs st1))"

definition unload_ollama_models :: "world \<Rightarrow> string \<Rightarrow> state \<Rightarrow> unit step" where
  "unload_ollama_models w host st =
     (if host = [] then (Inl 1, st)
      else case ps w (trace st) of
             None \<Rightarrow> (Inr (), note_event GetPs st)
           | Some models \<Rightarrow>
               if models = [] then (Inr (), note_event GetPs st)
               else (Inr (), snd (unload_loop w models (0, note_event GetPs st))))"

definition cache_age_hours :: "world \<Rightarrow> state \<Rightarrow> real \<Rightarrow> real" where
  "cache_age_hours w st file_mtime = (clock w (trace st) - file_mtime) / 3600"

definition check_repeated_content :: "world \<Rightarrow> string \<Rightarrow> state \<Rightarrow> string option" where
  "check_repeated_content w allow_repeated st =
     (if allow_repeated = ''REPEATED'' then None
      else case cache st of
             Some (content, file_mtime) \<Rightarrow>
               if cache_age_hours w st file_mtime < 24 then Some ''REPEATED'' else None
           | None \<Rightarrow> None)"

definition fetch_new_content :: "world \<Rightarrow> string \<Rightarrow> state \<Rightarrow> string step" where
  "fetch_new_content w url st =
     (case page w (trace st) of
        None \<Rightarrow> (Inl 1, note_event (GetPage url) st)
      | Some extracted \<Rightarrow>
          let text = strip (re_sub spaces '' '' extracted);
              st1 = note_event (GetPage url) st;
              st2 = (note_event (WriteCache text) st1)\<lparr>cache := Some (text, clock w (trace st1))\<rparr>
          in (Inr text, st2))"

definition fetch_article_content :: "world \<Rightarrow> string \<Rightarrow> state \<Rightarrow> string step" where
  "fetch_article_content w url st =
     (case cache st of
        Some (content, file_mtime) \<Rightarrow>
          if cache_age_hours w st file_mtime < 24 then (Inr content, note_event ReadCache st)
          else fetch_new_content w url st
      | None \<Rightarrow> fetch_new_content w url st)"

definition generate_summary ::
    "world \<Rightarrow> string \<Rightarrow> string \<Rightarrow> string \<Rightarrow> string \<Rightarrow> state \<Rightarrow> string step" where
  "generate_summary w host model prompt content st =
     (if host = [] then (Inl 1, st)
      else
        let full_prompt = prompt @ [newline, newline] @ content;
            st1 = note_event (PostGenerate model full_prompt) st
        in case generate w (trace st) of
             None \<Rightarrow> (Inl 1, st1)
           | Some None \<Rightarrow> (Inl 1, st1)
           | Some (Some result) \<Rightarrow>
               if result = [] then (Inl 1, st1) else (Inr (clean_text result), st1))"

text \<open>Decimal digits, for the numbers the f-string of the prompt embeds.\<close>

fun digits :: "nat \<Rightarrow> nat \<Rightarrow> string" where
  "digits 0 n = []"
| "digits (Suc fuel) n =
     (if n < 10 then [char_of (48 + n)]
      else digits fuel (n div 10) @ [char_of (48 + n mod 10)])"

definition str_int :: "int \<Rightarrow> string" where
  "str_int i = (if i < 0 then ''-'' @ digits (Suc (nat (- i))) (nat (- i))
                else digits (Suc (nat i)) (nat i))"

definition summary_prompt :: "int \<Rightarrow> string" where
  "summary_prompt summary_length =
     ''Respond ONLY with the '' @ str_int summary_length @
     ''-character summary. No thinking output. Summary: '' @
     ''Provide a **strictly '' @ str_int summary_length @
     ''-character** summary of this article. '' @
     ''Structure: [Main Event] - [Key Detail] - [Outcome]. '' @
     ''Example: '' @ [CHR 0x22] @ ''Israel approves new Gaza offensive amid ceasefire talks; '' @
     ''military plans phased operations while US seeks deal.'' @ [CHR 0x22] @ '' '' @
     ''**Rules:** '' @
     ''1. **EXACTLY '' @ str_int summary_length @ '' chars** (count precisely). '' @
     ''2. **No incomplete words** (truncate mid-sentence if needed). '' @
     ''3. **No sources, dates, or author names.** '' @
     ''4. **If over limit, rewrite shorter.**''"

definition fallback_marker :: string where
  "fallback_marker = ''[Error: No summary generated]''"

definition startswith :: "string \<Rightarrow> string \<Rightarrow> bool" where
  "startswith s p \<longleftrightarrow> take (length p) s = p"

text \<open>
  The end of \<open>main\<close>, from the fallback to the exit status. The result is the exit
  status and the final state.
\<close>

definition finish :: "world \<Rightarrow> string \<Rightarrow> string \<Rightarrow> state \<Rightarrow> int \<times> state" where
  "finish w host summary0 st =
     (let summary = (if summary0 = [] \<or> strip summary0 = [] then fallback_marker
                     else summary0);
          st1 = note_event (Stdout summary) st
      in case unload_ollama_models w host st1 of
           (Inl code, st2) \<Rightarrow> (code, st2)
         | (Inr u, st2) \<Rightarrow> ((if \<not> startswith summary ''[Error'' then 0 else 1), st2))"

text \<open>
  \<open>main\<close> behind the parsing of \<open>sys.argv\<close>: the five arguments with their defaults
  filled in, and the cache file as the run finds it.
\<close>

definition main ::
    "world \<Rightarrow> (string \<times> real) option \<Rightarrow> string \<Rightarrow> string \<Rightarrow> string \<Rightarrow> int \<Rightarrow> string
     \<Rightarrow> int \<times> state" where
  "main w cache0 ollama_host url ollama_model summary_length allow_repeated =
     (case check_ollama_server w ollama_host \<lparr>trace = [], cache = cache0\<rparr> of
        (Inl code, st1) \<Rightarrow> (code, st1)
      | (Inr u1, st1) \<Rightarrow>
     (case check_model_available w ollama_host ollama_model st1 of
        (Inl code, st2) \<Rightarrow> (code, st2)
      | (Inr u2, st2) \<Rightarrow>
     (case check_repeated_content w allow_repeated st2 of
        Some repeated_result \<Rightarrow> (0, note_event (Stdout repeated_result) st2)
      | None \<Rightarrow>
     (case unload_ollama_models w ollama_host st2 of
        (Inl code, st3) \<Rightarrow> (code, st3)
      | (Inr u3, st3) \<Rightarrow>
     (case fetch_article_content w url st3 of
        (Inl code, st4) \<Rightarrow> (code, st4)
      | (Inr content, st4) \<Rightarrow>
     (case generate_summary w ollama_host ollama_model (summary_prompt summary_length)
             content st4 of
        (Inl code, st5) \<Rightarrow> (code, st5)
      | (Inr summary, st5) \<Rightarrow> finish w ollama_host summary st5))))))"


section \<open>The benchmark driver of \<open>llmbench.py\<close>\<close>

text \<open>
  What \<open>subprocess.run\<close> can do in \<open>run_article3_script\<close>: the script exits with a
  return code, its standard output and the seconds it took; the 300 second timeout
  expires; or another exception is raised, with its message and the seconds elapsed.
\<close>

datatype proc =
    Exited int string real
  | TimeoutExpired
  | Raised string real

record run_result =
  success :: bool
  summary :: "string option"
  time :: real
  error :: "string option"

definition command :: "string \<Rightarrow> string \<Rightarrow> string \<Rightarrow> int \<Rightarrow> string list" where
  "command host url model summary_length =
     [''./article3.sh'', host, url, model, str_int summary_length, ''REPEATED'']"

definition run_article3_script :: "proc \<Rightarrow> run_result" where
  "run_article3_script outcome =
     (case outcome of
        Exited returncode stdout elapsed_time \<Rightarrow>
          if returncode = 0 then
            \<lparr>success = True, summary = Some (strip stdout), time = elapsed_time,
             error = None\<rparr>
          else
            \<lparr>success = False, summary = None, time = elapsed_time,
             error = Some (''Script failed with return code '' @ str_int returncode)\<rparr>
      | TimeoutExpired \<Rightarrow>
          \<lparr>success = False, summary = None, time = 300,
           error = Some ''Timeout after 300 seconds''\<rparr>
      | Raised e elapsed_time \<Rightarrow>
          \<lparr>success = False, summary = None, time = elapsed_time,
           error = Some (''Execution error: '' @ e)\<rparr>)"

text \<open>
  The environment of the driver: whether \<open>./article3.sh\<close> exists and is executable,
  the age in hours of the cache file of a URL when there is one, and what the n-th
  invocation of the script does with a command line.
\<close>

record bench_env =
  script_exists :: bool
  script_executable :: bool
  cache_age :: "string \<Rightarrow> real option"
  script :: "nat \<Rightarrow> string list \<Rightarrow> proc"

text \<open>One row of the CSV report; the time is kept exact, not rounded to two places.\<close>

record csv_row =
  row_url :: string
  row_model :: string
  row_run :: nat
  row_time :: real
  row_success :: bool
  row_summary_length :: nat
  row_target_length :: int
  row_length_match :: bool
  row_cache_used :: bool
  row_cache_age :: real
  row_error :: string
  row_summary :: string

definition truthy :: "string option \<Rightarrow> bool" where
  "truthy v \<longleftrightarrow> (case v of None \<Rightarrow> False | Some x \<Rightarrow> x \<noteq> [])"

definition or_empty :: "string option \<Rightarrow> string" where
  "or_empty v = (case v of None \<Rightarrow> [] | Some x \<Rightarrow> x)"

definition make_row ::
    "string \<Rightarrow> string \<Rightarrow> nat \<Rightarrow> int \<Rightarrow> real option \<Rightarrow> run_result \<Rightarrow> csv_row" where
  "make_row url model run max_length age result =
     (let summary_length =
            (if success result
             then (if truthy (summary result) then length (or_empty (summary result)) else 0)
             else 0);
          length_match =
            (if success result then int summary_length \<le> max_length else False)
      in \<lparr>row_url = url, row_model = model, row_run = run + 1, row_time = time result,
          row_success = success result, row_summary_length = summary_length,
          row_target_length = max_length, row_length_match = length_match,
          row_cache_used = (age \<noteq> None),
          row_cache_age = (case age of None \<Rightarrow> 0 | Some a \<Rightarrow> a),
          row_error = or_empty (error result),
          row_summary =
            (if truthy (summary result) \<and> length (or_empty (summary result)) > 100
             then take 100 (or_empty (summary result)) @ ''...''
             else or_empty (summary result))\<rparr>)"

text \<open>\<open>numpy.mean\<close> and \<open>numpy.std\<close> (the population deviation) on real numbers.\<close>

definition mean :: "real list \<Rightarrow> real" where
  "mean xs = sum_list xs / real (length xs)"

definition std :: "real list \<Rightarrow> real" where
  "std xs = sqrt (mean (map (\<lambda>x. (x - mean xs)\<^sup>2) xs))"

text \<open>
  The statistics printed behind the runs of one (url, model) pair, lines 211 to 217.
  \<open>result\<close> is there the loop variable left by the last run.
\<close>

definition pair_stats :: "run_result list \<Rightarrow> (real \<times> real \<times> nat) option" where
  "pair_stats results =
     (let times = map time results;
          successful_runs = length (filter success results)
      in if successful_runs > 0 then
           let result = last results;
               successful_times =
                 map (\<lambda>i. times ! i) (filter (\<lambda>i. success result) [0..<length times])
           in if successful_times \<noteq> [] then
                Some (mean successful_times,
                      (if length successful_times > 1 then std successful_times else 0),
                      successful_runs)
              else None
         else None)"

text \<open>
  The statistic in the words of the specification: mean and deviation over the
  elapsed times of the successful runs, none when no run succeeded.
\<close>

definition spec_pair_stats :: "run_result list \<Rightarrow> (real \<times> real) option" where
  "spec_pair_stats results =
     (let successful_times = map time (filter success results)
      in if successful_times = [] then None
         else Some (mean successful_times,
                    (if length successful_times > 1 then std successful_times else 0)))"

text \<open>One invocation: its number, its command line, its result and its CSV row.\<close>

record entry =
  call :: nat
  cmd :: "string list"
  result :: run_result
  row :: csv_row

definition one_run ::
    "bench_env \<Rightarrow> string \<Rightarrow> int \<Rightarrow> string \<Rightarrow> string \<Rightarrow> nat \<Rightarrow> nat \<Rightarrow> entry" where
  "one_run env host max_length url model current_test run =
     (let c = command host url model max_length;
          r = run_article3_script (script env current_test c)
      in \<lparr>call = current_test, cmd = c, result = r,
          row = make_row url model run max_length (cache_age env url) r\<rparr>)"

text \<open>The loop over \<open>range(args.runs)\<close>; \<open>first\<close> counts the invocations made before.\<close>

definition run_loop ::
    "bench_env \<Rightarrow> string \<Rightarrow> int \<Rightarrow> string \<Rightarrow> string \<Rightarrow> int \<Rightarrow> nat \<Rightarrow> entry list" where
  "run_loop env host max_length url model runs first =
     map (\<lambda>run. one_run env host max_length url model (first + run) run) [0..<nat runs]"

record pair_report =
  entries :: "entry list"
  stats :: "(real \<times> real \<times> nat) option"

fun model_loop ::
    "bench_env \<Rightarrow> string \<Rightarrow> int \<Rightarrow> string \<Rightarrow> int \<Rightarrow> string list \<Rightarrow> nat \<Rightarrow> pair_report list"
where
  "model_loop env host max_length url runs [] first = []"
| "model_loop env host max_length url runs (model # models) first =
     (let es = run_loop env host max_length url model runs first
      in \<lparr>entries = es, stats = pair_stats (map result es)\<rparr> #
         model_loop env host max_length url runs models (first + nat runs))"

fun url_loop ::
    "bench_env \<Rightarrow> string \<Rightarrow> int \<Rightarrow> string list \<Rightarrow> int \<Rightarrow> string list \<Rightarrow> nat \<Rightarrow> pair_report list"
where
  "url_loop env host max_length models runs [] first = []"
| "url_loop env host max_length models runs (url # urls) first =
     model_loop env host max_length url runs models first @
     url_loop env host max_length models runs urls (first + length models * nat runs)"

subsection \<open>The model and URL lists\<close>

fun split :: "char \<Rightarrow> string \<Rightarrow> string list" where
  "split sep [] = [[]]"
| "split sep (c # cs) =
     (if c = sep then [] # split sep cs
      else (c # hd (split sep cs)) # tl (split sep cs))"

fun contains :: "string \<Rightarrow> string \<Rightarrow> bool" where
  "contains [] needle = (needle = [])"
| "contains (c # cs) needle = (startswith (c # cs) needle \<or> contains cs needle)"

datatype py_error = AttributeError

text \<open>
  \<open>parse_list(arg, file_path)\<close>: the lines of the file when a file is named, else the
  option split at commas; without either, \<open>None.split\<close> raises.
\<close>

definition parse_list :: "string option \<Rightarrow> string list option \<Rightarrow> py_error + string list" where
  "parse_list arg file_lines =
     (case file_lines of
        Some lines \<Rightarrow>
          Inr (map strip (filter (\<lambda>line. strip line \<noteq> [] \<and> \<not> startswith line ''#'') lines))
      | None \<Rightarrow> (case arg of None \<Rightarrow> Inl AttributeError | Some a \<Rightarrow> Inr (split CHR '','' a)))"

definition keep_model :: "string \<Rightarrow> bool" where
  "keep_model m \<longleftrightarrow> m \<noteq> [] \<and> \<not> contains m ''-embedding''"

datatype bench_outcome =
    Crash py_error
  | Refused string
  | Swept "pair_report list"

definition bench_main ::
    "bench_env \<Rightarrow> string \<Rightarrow> int \<Rightarrow> string option \<Rightarrow> string list option \<Rightarrow> string option
     \<Rightarrow> string list option \<Rightarrow> int \<Rightarrow> bench_outcome" where
  "bench_main env host max_length models_arg model_file urls_arg urls_file runs =
     (if \<not> script_exists env then
        Refused ''Error: article3.sh not found in current directory''
      else if \<not> script_executable env then
        Refused ''Error: article3.sh is not executable. Run: chmod +x article3.sh''
      else case parse_list models_arg model_file of
        Inl e \<Rightarrow> Crash e
      | Inr listed \<Rightarrow>
     (case parse_list urls_arg urls_file of
        Inl e \<Rightarrow> Crash e
      | Inr urls \<Rightarrow>
          let models = filter keep_model listed in
          if models = [] then
            Refused ''Error: No valid models provided after filtering out embedding models.''
          else if urls = [] then Refused ''Error: No URLs provided.''
          else Swept (url_loop env host max_length models runs urls 0)))"

definition all_entries :: "bench_outcome \<Rightarrow> entry list" where
  "all_entries out = (case out of Swept reports \<Rightarrow> concat (map entries reports) | _ \<Rightarrow> [])"


section \<open>Environments for concrete runs\<close>

text \<open>A server that answers nothing, read 25 hours after time 0.\<close>

definition dead_world :: world where
  "dead_world = \<lparr>tags = (\<lambda>h. None), ps = (\<lambda>h. None), unload = (\<lambda>h. False),
     page = (\<lambda>h. None), generate = (\<lambda>h. None), clock = (\<lambda>h. 90000)\<rparr>"

text \<open>A server that offers one model and answers every request, read one hour after
  time 0.\<close>

definition live_world :: world where
  "live_world = \<lparr>tags = (\<lambda>h. Some [''qwen3:1.7b'']), ps = (\<lambda>h. Some []), unload = (\<lambda>h. True),
     page = (\<lambda>h. Some ''page text''), generate = (\<lambda>h. Some (Some ''[Error] x'')),
     clock = (\<lambda>h. 3600)\<rparr>"


text \<open>Three runs of one pair: a success of one second, a timeout, a success of two.\<close>

definition mixed_runs :: "run_result list" where
  "mixed_runs = map run_article3_script [Exited 0 ''ok'' 1, TimeoutExpired, Exited 0 ''ok'' 2]"

text \<open>A run that the driver records as unsuccessful: a nonzero return code, the timeout
  or another exception.\<close>

definition failed :: "proc \<Rightarrow> bool" where
  "failed outcome \<longleftrightarrow>
     (case outcome of Exited returncode out t \<Rightarrow> returncode \<noteq> 0 | _ \<Rightarrow> True)"

text \<open>An entry holds what its invocation produced.\<close>

definition faithful :: "bench_env \<Rightarrow> entry \<Rightarrow> bool" where
  "faithful env e \<longleftrightarrow>
     result e = run_article3_script (script env (call e) (cmd e)) \<and>
     row_success (row e) = success (result e) \<and>
     row_error (row e) = or_empty (error (result e))"

text \<open>A script whose first invocation times out and whose later ones succeed.\<close>

definition flaky_env :: bench_env where
  "flaky_env = \<lparr>script_exists = True, script_executable = True, cache_age = (\<lambda>url. None),
     script = (\<lambda>k c. if k = 0 then TimeoutExpired else Exited 0 ''a summary'' 1)\<rparr>"

section \<open>Notions for the properties of \<open>clean_text\<close>\<close>

text \<open>Nowhere in \<open>s\<close> does \<open>r\<close> match.\<close>

definition dead :: "rx \<Rightarrow> string \<Rightarrow> bool" where
  "dead r s \<longleftrightarrow> (\<forall>b n. ms r (b, drop n s) = [])"

text \<open>Every maximal run of characters of a class replaced by \<open>repl\<close>.\<close>

function collapse :: "(char \<Rightarrow> bool) \<Rightarrow> string \<Rightarrow> string \<Rightarrow> string" where
  "collapse P repl [] = []"
| "collapse P repl (c # cs) =
     (if P c then repl @ collapse P repl (dropWhile P cs) else c # collapse P repl cs)"
  by pat_completeness auto
termination
  by (relation "measure (\<lambda>(P, repl, s). length s)")
    (auto simp: length_dropWhile_le less_Suc_eq_le)

text \<open>
  White space occurs only as single spaces, each followed by a character that is not
  white space; \<open>wtight\<close> allows a space at the very end as well.
\<close>

fun tight :: "string \<Rightarrow> bool" where
  "tight [] = True"
| "tight (c # cs) =
     ((is_space c \<longrightarrow> c = CHR 0x20 \<and> cs \<noteq> [] \<and> \<not> is_space (hd cs)) \<and> tight cs)"

fun wtight :: "string \<Rightarrow> bool" where
  "wtight [] = True"
| "wtight (c # cs) =
     ((is_space c \<longrightarrow> c = CHR 0x20 \<and> (cs = [] \<or> \<not> is_space (hd cs))) \<and> wtight cs)"


section \<open>Properties of the orchestrator\<close>

text \<open>
  C6. When the host is missing or the first listing request fails, \<open>main\<close> exits with
  status 1 having issued at most that one listing request: no page is fetched, no
  generation is requested, and the cache file is neither read nor written.
\<close>

theorem unreachable_server_aborts:
  assumes "host = [] \<or> tags w [] = None"
  shows "main w cache0 host url model n allow =
           (1, \<lparr>trace = (if host = [] then [] else [GetTags]), cache = cache0\<rparr>)"
  using assms by (auto simp: main_def check_ollama_server_def note_event_def)

theorem unreachable_server_aborts_witness:
  "(''h'' = [] \<or> tags dead_world [] = None) \<and>
   main dead_world (Some (''old'', 0)) ''h'' ''u'' ''m'' 257 ''no'' =
     (1, \<lparr>trace = [GetTags], cache = Some (''old'', 0)\<rparr>)"
  using unreachable_server_aborts [of "''h''" dead_world "Some (''old'', 0)" "''u''" "''m''" 257 "''no''"]
  by (simp add: dead_world_def)


text \<open>
  C7. With a cache file younger than 24 hours whenever the clock is read and a fifth
  argument other than \<open>REPEATED\<close>, a run performs nothing but listing requests and the
  printing of the sentinel: no page fetch, no resident-model query, no unload, no
  generation. When the server and model checks pass, it ends right behind the cache
  check, prints \<open>REPEATED\<close> and exits with status 0.
\<close>

theorem fresh_cache_short_circuit:
  assumes "cache0 = Some (content, file_mtime)"
    and "\<forall>h. (clock w h - file_mtime) / 3600 < 24"
    and "allow \<noteq> ''REPEATED''"
  shows "(\<forall>e \<in> set (trace (snd (main w cache0 host url model n allow))).
            e = GetTags \<or> e = Stdout ''REPEATED'') \<and>
         (host \<noteq> [] \<and> tags w [] \<noteq> None \<and> (\<exists>ms. tags w [GetTags] = Some ms \<and> model \<in> set ms)
          \<longrightarrow> main w cache0 host url model n allow =
                (0, \<lparr>trace = [GetTags, GetTags, Stdout ''REPEATED''], cache = cache0\<rparr>))"
  using assms
  by (auto simp: main_def check_ollama_server_def check_model_available_def note_event_def
      check_repeated_content_def cache_age_hours_def split: option.splits)

theorem fresh_cache_short_circuit_witness:
  "main live_world (Some (''old'', 0)) ''h'' ''u'' ''qwen3:1.7b'' 257 ''no'' =
     (0, \<lparr>trace = [GetTags, GetTags, Stdout ''REPEATED''], cache = Some (''old'', 0)\<rparr>)"
  using fresh_cache_short_circuit [of "Some (''old'', 0)" "''old''" 0 live_world "''no''" "''h''" "''u''" "''qwen3:1.7b''" 257]
  by (simp add: live_world_def)



text \<open>
  C1, as the specification has it, fails: the \<open>REPEATED\<close> flag does not make a stale
  entry fresh. With the flag and an entry of 25 hours, \<open>check_repeated_content\<close>
  answers \<open>None\<close> and \<open>fetch_article_content\<close> requests the page.
\<close>

theorem override_leaves_stale_entry_stale:
  "check_repeated_content dead_world ''REPEATED'' \<lparr>trace = [], cache = Some (''old'', 0)\<rparr> = None \<and>
   fetch_article_content dead_world ''u'' \<lparr>trace = [], cache = Some (''old'', 0)\<rparr> =
     (Inl 1, \<lparr>trace = [GetPage ''u''], cache = Some (''old'', 0)\<rparr>)"
  by (simp add: check_repeated_content_def fetch_article_content_def fetch_new_content_def
      cache_age_hours_def dead_world_def note_event_def)

text \<open>
  C1, amended. Freshness is the age alone: \<open>check_repeated_content\<close> answers the
  sentinel exactly when the flag is not \<open>REPEATED\<close> and the file exists with an age
  below 24 hours, and \<open>fetch_article_content\<close>, which takes no flag, returns the
  cached text without a request exactly when the age of the file is below 24 hours.
\<close>

theorem freshness_is_age_below_24:
  "(check_repeated_content w allow st = Some ''REPEATED'' \<longleftrightarrow>
      allow \<noteq> ''REPEATED'' \<and>
      (\<exists>content file_mtime. cache st = Some (content, file_mtime) \<and>
         (clock w (trace st) - file_mtime) / 3600 < 24)) \<and>
   (cache st = Some (content, file_mtime) \<longrightarrow>
      (fetch_article_content w url st = (Inr content, note_event ReadCache st) \<longleftrightarrow>
         (clock w (trace st) - file_mtime) / 3600 < 24))"
proof -
  have "trace (snd (fetch_new_content w url st)) \<noteq> trace (note_event ReadCache st)"
    by (simp add: fetch_new_content_def note_event_def Let_def split: option.splits)
  then have "fetch_new_content w url st \<noteq> (Inr content, note_event ReadCache st)"
    by auto
  then show ?thesis
    by (auto simp: check_repeated_content_def fetch_article_content_def cache_age_hours_def
        split: option.splits)
qed

theorem freshness_is_age_below_24_witness:
  "check_repeated_content live_world ''no'' \<lparr>trace = [], cache = Some (''old'', 0)\<rparr> = Some ''REPEATED'' \<and>
   fetch_article_content live_world ''u'' \<lparr>trace = [], cache = Some (''old'', 0)\<rparr> =
     (Inr ''old'', note_event ReadCache \<lparr>trace = [], cache = Some (''old'', 0)\<rparr>)"
  using freshness_is_age_below_24 [of live_world "''no''" "\<lparr>trace = [], cache = Some (''old'', 0)\<rparr>" "''old''" 0 "''u''"]
  by (simp add: live_world_def)

text \<open>The unload step never exits once a host is given, and only adds events.\<close>

lemma unload_loop_trace:
  "\<exists>more. trace (snd (unload_loop w names (e, st))) = trace st @ more"
proof (induction names arbitrary: e st)
  case Nil
  then show ?case by simp
next
  case (Cons m names)
  show ?case
  proof (cases "unload w (trace st)")
    case False
    from Cons [of "e + 1" "note_event (PostUnload m) st"] False show ?thesis
      by (auto simp: note_event_def)
  next
    case True
    let ?st1 = "note_event (PostUnload m) st"
    from Cons [of "e + 1" "note_event GetPs ?st1"] Cons [of e "note_event GetPs ?st1"] True show ?thesis
      by (auto simp: note_event_def Let_def split: option.splits)
  qed
qed

lemma unload_returns:
  assumes "host \<noteq> []"
  shows "\<exists>st'. unload_ollama_models w host st = (Inr (), st') \<and>
           (\<exists>more. trace st' = trace st @ more)"
proof (cases "ps w (trace st)")
  case None
  with assms show ?thesis by (simp add: unload_ollama_models_def note_event_def)
next
  case (Some models)
  show ?thesis
  proof (cases "models = []")
    case True
    with Some assms show ?thesis by (simp add: unload_ollama_models_def note_event_def)
  next
    case False
    from unload_loop_trace [of w models 0 "note_event GetPs st"]
    obtain more where "trace (snd (unload_loop w models (0, note_event GetPs st))) = trace st @ GetPs # more"
      by (auto simp: note_event_def)
    with Some False assms show ?thesis by (simp add: unload_ollama_models_def)
  qed
qed

text \<open>
  C5, amended. For every cleaned summary, the end of \<open>main\<close> prints the summary, or the
  fallback marker in place of an empty one, and exits with status 1 exactly when the
  printed text begins with \<open>[Error\<close>, which the fallback marker does.
\<close>

theorem exit_status_follows_prefix:
  assumes "host \<noteq> []"
  shows "fst (finish w host summary0 st) =
           (if startswith (if summary0 = [] \<or> strip summary0 = [] then fallback_marker else summary0)
                 ''[Error'' then 1 else 0) \<and>
         Stdout (if summary0 = [] \<or> strip summary0 = [] then fallback_marker else summary0)
           \<in> set (trace (snd (finish w host summary0 st))) \<and>
         (summary0 = [] \<longrightarrow> fst (finish w host summary0 st) = 1)"
proof -
  define emitted where
    "emitted = (if summary0 = [] \<or> strip summary0 = [] then fallback_marker else summary0)"
  from unload_returns [OF assms, of w "note_event (Stdout emitted) st"]
  obtain st' more where u: "unload_ollama_models w host (note_event (Stdout emitted) st) = (Inr (), st')"
    and t: "trace st' = trace (note_event (Stdout emitted) st) @ more"
    by blast
  have f: "finish w host summary0 st = ((if \<not> startswith emitted ''[Error'' then 0 else 1), st')"
    using u by (simp add: finish_def emitted_def Let_def)
  have m: "startswith fallback_marker ''[Error''"
    by (simp add: startswith_def fallback_marker_def)
  from f t m show ?thesis
    unfolding emitted_def [symmetric] by (auto simp: note_event_def emitted_def)
qed

theorem exit_status_follows_prefix_witness:
  "fst (finish live_world ''h'' [] \<lparr>trace = [], cache = None\<rparr>) = 1 \<and>
   Stdout fallback_marker \<in> set (trace (snd (finish live_world ''h'' [] \<lparr>trace = [], cache = None\<rparr>)))"
  using exit_status_follows_prefix [of "''h''" live_world "[]" "\<lparr>trace = [], cache = None\<rparr>"]
  by (simp add: startswith_def fallback_marker_def)

text \<open>
  C5, as the specification has it, fails: a completed run whose cleaned summary is
  not empty, so that no fallback takes place, exits with status 1 when the summary
  begins with \<open>[Error\<close>.
\<close>

theorem error_prefix_without_fallback:
  "fst (main live_world None ''h'' ''u'' ''qwen3:1.7b'' 257 ''no'') = 1 \<and>
   Stdout ''[Error] x'' \<in> set (trace (snd (main live_world None ''h'' ''u'' ''qwen3:1.7b'' 257 ''no''))) \<and>
   clean_text ''[Error] x'' = ''[Error] x'' \<and> ''[Error] x'' \<noteq> fallback_marker"
proof -
  have c: "clean_text ''[Error] x'' = ''[Error] x''" by code_simp
  have p: "strip (re_sub spaces '' '' ''page text'') = ''page text''" by code_simp
  have s: "strip ''[Error] x'' = ''[Error] x''" by code_simp
  show ?thesis
    by (simp add: c p s main_def live_world_def check_ollama_server_def
        check_model_available_def check_repeated_content_def unload_ollama_models_def
        fetch_article_content_def fetch_new_content_def generate_summary_def finish_def
        note_event_def startswith_def fallback_marker_def Let_def)
qed

section \<open>Properties of the benchmark driver\<close>

text \<open>
  C2. The statistic of a pair is not taken over the successful runs: the filter of
  line 213 tests the last run only. With a success of one second, a timeout and a
  success of two seconds the driver reports the mean 101 of all three times, where
  the mean over the successful runs is 3/2.
\<close>

theorem stats_over_all_runs:
  "map_option fst (pair_stats mixed_runs) = Some 101 \<and>
   map_option fst (spec_pair_stats mixed_runs) = Some (3 / 2)"
  by (simp add: pair_stats_def spec_pair_stats_def mixed_runs_def run_article3_script_def mean_def
      Let_def)


text \<open>The invocations are numbered in order, whatever they return.\<close>

lemma run_loop_calls:
  "map call (run_loop env host n url model runs first) = [first..<first + nat runs]"
proof -
  have "map (\<lambda>run. first + run) [0..<k] = [first..<first + k]" for k
    using map_add_upt [of first k] by (simp add: add.commute)
  then show ?thesis
    by (simp add: run_loop_def one_run_def Let_def comp_def)
qed

lemma run_loop_faithful:
  "e \<in> set (run_loop env host n url model runs first) \<Longrightarrow> faithful env e"
  by (auto simp: run_loop_def one_run_def Let_def faithful_def make_row_def)

lemma run_loop_model:
  "e \<in> set (run_loop env host n url model runs first) \<Longrightarrow>
     cmd e = command host url model n \<and> row_model (row e) = model \<and> row_url (row e) = url"
  by (auto simp: run_loop_def one_run_def Let_def make_row_def)

lemma model_loop_calls:
  "map call (concat (map entries (model_loop env host n url runs models first))) =
     [first..<first + length models * nat runs]"
proof (induction models arbitrary: first)
  case Nil
  then show ?case by simp
next
  case (Cons m models)
  have "[first..<first + nat runs] @ [first + nat runs..<first + nat runs + length models * nat runs]
        = [first..<first + nat runs + length models * nat runs]"
    by (metis le_add1 upt_add_eq_append)
  with Cons [of "first + nat runs"] show ?case
    by (simp add: Let_def run_loop_calls add.assoc)
qed

lemma model_loop_entries:
  "e \<in> set (concat (map entries (model_loop env host n url runs models first))) \<Longrightarrow>
     faithful env e \<and> (\<exists>model \<in> set models. cmd e = command host url model n \<and>
        row_model (row e) = model \<and> row_url (row e) = url)"
proof (induction models arbitrary: first)
  case Nil
  then show ?case by simp
next
  case (Cons m models)
  from Cons(2) have "e \<in> set (run_loop env host n url m runs first) \<or>
      e \<in> set (concat (map entries (model_loop env host n url runs models (first + nat runs))))"
    by (simp add: Let_def)
  then show ?case
  proof
    assume "e \<in> set (run_loop env host n url m runs first)"
    then show ?thesis using run_loop_faithful run_loop_model by auto
  next
    assume "e \<in> set (concat (map entries (model_loop env host n url runs models (first + nat runs))))"
    from Cons(1) [OF this] show ?thesis by auto
  qed
qed

lemma url_loop_calls:
  "map call (concat (map entries (url_loop env host n models runs urls first))) =
     [first..<first + length urls * (length models * nat runs)]"
proof (induction urls arbitrary: first)
  case Nil
  then show ?case by simp
next
  case (Cons u urls)
  let ?k = "length models * nat runs"
  have "[first..<first + ?k] @ [first + ?k..<first + ?k + length urls * ?k]
        = [first..<first + ?k + length urls * ?k]"
    by (metis le_add1 upt_add_eq_append)
  with Cons [of "first + ?k"] show ?case
    by (simp add: model_loop_calls add.assoc)
qed

lemma url_loop_entries:
  "e \<in> set (concat (map entries (url_loop env host n models runs urls first))) \<Longrightarrow>
     faithful env e \<and> (\<exists>model \<in> set models. \<exists>url \<in> set urls. cmd e = command host url model n \<and>
        row_model (row e) = model \<and> row_url (row e) = url)"
proof (induction urls arbitrary: first)
  case Nil
  then show ?case by simp
next
  case (Cons u urls)
  let ?k = "length models * nat runs"
  from Cons(2) have "e \<in> set (concat (map entries (model_loop env host n u runs models first))) \<or>
      e \<in> set (concat (map entries (url_loop env host n models runs urls (first + ?k))))"
    by simp
  then show ?case
  proof
    assume "e \<in> set (concat (map entries (model_loop env host n u runs models first)))"
    from model_loop_entries [OF this] show ?thesis by auto
  next
    assume "e \<in> set (concat (map entries (url_loop env host n models runs urls (first + ?k))))"
    from Cons(1) [OF this] show ?thesis by auto
  qed
qed

lemma failed_recorded:
  "failed outcome \<Longrightarrow> \<not> success (run_article3_script outcome) \<and>
     error (run_article3_script outcome) \<noteq> None \<and>
     or_empty (error (run_article3_script outcome)) \<noteq> []"
  by (cases outcome) (auto simp: failed_def run_article3_script_def or_empty_def)

text \<open>
  C8. In every sweep the invocations are numbered 0, 1, ... up to the number of URLs
  times the number of kept models times the number of runs, whatever the script
  does; each entry holds the result of its own invocation, and an invocation that
  times out, raises or returns a nonzero code is recorded with \<open>success = False\<close> and
  a non-empty error message, in the result and in the CSV row.
\<close>

theorem collect_and_continue:
  assumes "bench_main env host n models_arg model_file urls_arg urls_file runs = Swept reports"
    and "parse_list models_arg model_file = Inr listed"
    and "parse_list urls_arg urls_file = Inr urls"
  shows "map call (all_entries (Swept reports)) =
           [0..<length urls * (length (filter keep_model listed) * nat runs)] \<and>
         (\<forall>e \<in> set (all_entries (Swept reports)).
            result e = run_article3_script (script env (call e) (cmd e)) \<and>
            (failed (script env (call e) (cmd e)) \<longrightarrow>
               \<not> success (result e) \<and> error (result e) \<noteq> None \<and>
               \<not> row_success (row e) \<and> row_error (row e) \<noteq> []))"
proof -
  from assms have r: "reports = url_loop env host n (filter keep_model listed) runs urls 0"
    by (auto simp: bench_main_def Let_def split: if_splits)
  have "map call (all_entries (Swept reports)) =
           [0..<length urls * (length (filter keep_model listed) * nat runs)]"
    using url_loop_calls [of env host n "filter keep_model listed" runs urls 0]
    by (simp add: all_entries_def r)
  moreover have "result e = run_article3_script (script env (call e) (cmd e)) \<and>
            (failed (script env (call e) (cmd e)) \<longrightarrow>
               \<not> success (result e) \<and> error (result e) \<noteq> None \<and>
               \<not> row_success (row e) \<and> row_error (row e) \<noteq> [])"
    if "e \<in> set (all_entries (Swept reports))" for e
  proof -
    from that have "faithful env e"
      using url_loop_entries [of e env host n "filter keep_model listed" runs urls 0]
      by (simp add: all_entries_def r)
    then show ?thesis
      using failed_recorded [of "script env (call e) (cmd e)"]
      by (simp add: faithful_def)
  qed
  ultimately show ?thesis by blast
qed


theorem collect_and_continue_witness:
  "map call (all_entries (bench_main flaky_env ''h'' 257 (Some ''m'') None (Some ''u'') None 2)) = [0, 1] \<and>
   failed (script flaky_env 0 (command ''h'' ''u'' ''m'' 257)) \<and>
   \<not> row_success (row (hd (all_entries
       (bench_main flaky_env ''h'' 257 (Some ''m'') None (Some ''u'') None 2)))) \<and>
   row_error (row (hd (all_entries
       (bench_main flaky_env ''h'' 257 (Some ''m'') None (Some ''u'') None 2)))) \<noteq> []"
proof -
  let ?out = "bench_main flaky_env ''h'' 257 (Some ''m'') None (Some ''u'') None 2"
  have p1: "parse_list (Some ''m'') None = Inr [''m'']" by (simp add: parse_list_def)
  have p2: "parse_list (Some ''u'') None = Inr [''u'']" by (simp add: parse_list_def)
  have km: "keep_model ''m''" by (simp add: keep_model_def startswith_def)
  then have k: "filter keep_model [''m''] = [''m'']" by simp
  have b: "?out = Swept (url_loop flaky_env ''h'' 257 [''m''] 2 [''u''] 0)"
    unfolding bench_main_def p1 p2 by (simp add: km flaky_env_def)
  note t = collect_and_continue [OF b p1 p2]
  from t have c: "map call (all_entries ?out) = [0, 1]"
    unfolding b [symmetric] k by (simp add: upt_conv_Cons)
  then obtain e0 e1 where es: "all_entries ?out = [e0, e1]" and c0: "call e0 = 0"
    by auto
  have f: "failed (script flaky_env 0 c)" for c
    by (simp add: failed_def flaky_env_def)
  from t es have "failed (script flaky_env (call e0) (cmd e0)) \<longrightarrow>
      \<not> row_success (row e0) \<and> row_error (row e0) \<noteq> []"
    unfolding b [symmetric] by simp
  with f c0 have "\<not> row_success (row e0) \<and> row_error (row e0) \<noteq> []" by simp
  with c f es show ?thesis by simp
qed

text \<open>\<open>needle in s\<close> of Python, as \<open>contains\<close> computes it, is the substring relation.\<close>

lemma startswith_iff: "startswith s p \<longleftrightarrow> (\<exists>q. s = p @ q)"
proof
  assume "startswith s p"
  then have "s = p @ drop (length p) s"
    unfolding startswith_def by (metis append_take_drop_id)
  then show "\<exists>q. s = p @ q" ..
next
  assume "\<exists>q. s = p @ q"
  then show "startswith s p" unfolding startswith_def by auto
qed

lemma contains_iff: "contains s needle \<longleftrightarrow> (\<exists>p q. s = p @ needle @ q)"
proof (induction s)
  case Nil
  then show ?case by auto
next
  case (Cons c cs)
  have "(\<exists>p q. c # cs = p @ needle @ q) \<longleftrightarrow>
        (\<exists>q. c # cs = needle @ q) \<or> (\<exists>p q. cs = p @ needle @ q)"
  proof
    assume "\<exists>p q. c # cs = p @ needle @ q"
    then obtain p q where pq: "c # cs = p @ needle @ q" by blast
    show "(\<exists>q. c # cs = needle @ q) \<or> (\<exists>p q. cs = p @ needle @ q)"
    proof (cases p)
      case Nil
      with pq show ?thesis by auto
    next
      case (Cons a p')
      with pq have "cs = p' @ needle @ q" by simp
      then show ?thesis by blast
    qed
  next
    assume "(\<exists>q. c # cs = needle @ q) \<or> (\<exists>p q. cs = p @ needle @ q)"
    then show "\<exists>p q. c # cs = p @ needle @ q"
    proof
      assume "\<exists>q. c # cs = needle @ q"
      then obtain q where "c # cs = [] @ needle @ q" by auto
      then show ?thesis by blast
    next
      assume "\<exists>p q. cs = p @ needle @ q"
      then obtain p q where "c # cs = (c # p) @ needle @ q" by auto
      then show ?thesis by blast
    qed
  qed
  with Cons show ?case by (simp add: startswith_iff)
qed

text \<open>
  C10. No invocation and no CSV row of a sweep names a model that has \<open>-embedding\<close> as
  a substring. When every listed model has it, the driver makes no invocation, and
  once the script is in place and the URL list is read it refuses with the message
  about embedding models.
\<close>

theorem embedding_models_excluded:
  "(\<forall>e \<in> set (all_entries (bench_main env host n models_arg model_file urls_arg urls_file runs)).
      \<not> (\<exists>p q. row_model (row e) = p @ ''-embedding'' @ q) \<and>
      (\<exists>url. cmd e = command host url (row_model (row e)) n)) \<and>
   (\<forall>listed. parse_list models_arg model_file = Inr listed \<and>
        (\<forall>m \<in> set listed. \<exists>p q. m = p @ ''-embedding'' @ q) \<longrightarrow>
      all_entries (bench_main env host n models_arg model_file urls_arg urls_file runs) = [] \<and>
      (script_exists env \<and> script_executable env \<and> (\<exists>urls. parse_list urls_arg urls_file = Inr urls)
       \<longrightarrow> bench_main env host n models_arg model_file urls_arg urls_file runs =
             Refused ''Error: No valid models provided after filtering out embedding models.''))"
proof (intro conjI ballI allI impI)
  fix e
  let ?out = "bench_main env host n models_arg model_file urls_arg urls_file runs"
  assume e: "e \<in> set (all_entries ?out)"
  then obtain reports where sw: "?out = Swept reports"
    by (cases ?out) (auto simp: all_entries_def)
  then obtain listed urls where "reports = url_loop env host n (filter keep_model listed) runs urls 0"
    by (auto simp: bench_main_def Let_def split: if_splits sum.splits)
  with e sw have "e \<in> set (concat (map entries (url_loop env host n (filter keep_model listed) runs urls 0)))"
    by (simp add: all_entries_def)
  from url_loop_entries [OF this]
  obtain model url where m: "model \<in> set (filter keep_model listed)"
    and c: "cmd e = command host url model n" and r: "row_model (row e) = model"
    by blast
  from m have "\<not> contains model ''-embedding''" by (simp add: keep_model_def)
  with r show "\<not> (\<exists>p q. row_model (row e) = p @ ''-embedding'' @ q)"
    by (simp add: contains_iff)
  from c r show "\<exists>url. cmd e = command host url (row_model (row e)) n" by blast
next
  fix listed
  assume a: "parse_list models_arg model_file = Inr listed \<and>
        (\<forall>m \<in> set listed. \<exists>p q. m = p @ ''-embedding'' @ q)"
  then have "\<forall>m \<in> set listed. \<not> keep_model m"
    by (simp add: keep_model_def contains_iff)
  then have f: "filter keep_model listed = []" by (simp add: filter_empty_conv)
  with a show "all_entries (bench_main env host n models_arg model_file urls_arg urls_file runs) = []"
    by (auto simp: bench_main_def all_entries_def Let_def split: sum.splits)
  assume "script_exists env \<and> script_executable env \<and> (\<exists>urls. parse_list urls_arg urls_file = Inr urls)"
  with a f show "bench_main env host n models_arg model_file urls_arg urls_file runs =
             Refused ''Error: No valid models provided after filtering out embedding models.''"
    by (auto simp: bench_main_def Let_def)
qed


theorem embedding_models_excluded_witness:
  "map (\<lambda>e. row_model (row e))
     (all_entries (bench_main flaky_env ''h'' 257 (Some ''m,e-embedding'') None (Some ''u'') None 1))
     = [''m''] \<and>
   bench_main flaky_env ''h'' 257 (Some ''e-embedding'') None (Some ''u'') None 1 =
     Refused ''Error: No valid models provided after filtering out embedding models.''"
proof -
  have k1: "keep_model ''m''" by (simp add: keep_model_def startswith_def)
  have k2: "\<not> keep_model ''e-embedding''" by (simp add: keep_model_def startswith_def)
  have a: "map (\<lambda>e. row_model (row e))
     (all_entries (bench_main flaky_env ''h'' 257 (Some ''m,e-embedding'') None (Some ''u'') None 1))
     = [''m'']"
    by (simp add: bench_main_def parse_list_def k1 k2 flaky_env_def all_entries_def
        run_loop_def one_run_def make_row_def Let_def)
  have p: "parse_list (Some ''e-embedding'') None = Inr [''e-embedding'']"
    by (simp add: parse_list_def)
  have "''e-embedding'' = ''e'' @ ''-embedding'' @ []" by simp
  then have e: "\<forall>m \<in> set [''e-embedding'']. \<exists>p q. m = p @ ''-embedding'' @ q"
  proof (intro ballI)
    fix m :: string
    assume "m \<in> set [''e-embedding'']"
    then have "m = ''e'' @ ''-embedding'' @ []" by simp
    then show "\<exists>p q. m = p @ ''-embedding'' @ q" by blast
  qed
  have u: "\<exists>urls. parse_list (Some ''u'') None = Inr urls" by (simp add: parse_list_def)
  have f: "script_exists flaky_env \<and> script_executable flaky_env" by (simp add: flaky_env_def)
  from embedding_models_excluded [of flaky_env "''h''" 257 "Some ''e-embedding''" None "Some ''u''" None 1]
    p e u f
  have "bench_main flaky_env ''h'' 257 (Some ''e-embedding'') None (Some ''u'') None 1 =
     Refused ''Error: No valid models provided after filtering out embedding models.''"
    by blast
  with a show ?thesis by simp
qed


section \<open>Properties of \<open>clean_text\<close>\<close>

text \<open>
  The recursive equations of the matcher and of \<open>sub\<close> are taken out of the simplifier
  and replaced by their instances on the empty and the non-empty text.
\<close>

lemma ms_StarG_Nil: "ms (StarG P) (b, []) = [(b, [])]"
  by simp

lemma ms_StarG_Cons:
  "ms (StarG P) (b, c # cs) =
     (if P c then ms (StarG P) (c = newline, cs) @ [(b, c # cs)] else [(b, c # cs)])"
  by simp

lemma ms_StarL_Nil: "ms (StarL P) (b, []) = [(b, [])]"
  by simp

lemma ms_StarL_Cons:
  "ms (StarL P) (b, c # cs) =
     (b, c # cs) # (if P c then ms (StarL P) (c = newline, cs) else [])"
  by simp

lemma ms_Cls_Nil: "ms (Cls P) (b, []) = []"
  by simp

lemma ms_Cls_Cons: "ms (Cls P) (b, c # cs) = (if P c then [(c = newline, cs)] else [])"
  by simp

declare ms.simps(1,4,5) [simp del]
declare sub.simps [simp del]
declare ms_StarG_Nil [simp] ms_StarG_Cons [simp] ms_StarL_Nil [simp] ms_StarL_Cons [simp]
  ms_Cls_Nil [simp] ms_Cls_Cons [simp]

lemma ms_Cls_suffix: "q \<in> set (ms (Cls P) p) \<Longrightarrow> \<exists>n. snd q = drop n (snd p)"
proof -
  assume a: "q \<in> set (ms (Cls P) p)"
  obtain b s where p: "p = (b, s)" by (cases p)
  show ?thesis
  proof (cases s)
    case Nil
    with a p show ?thesis by simp
  next
    case (Cons c cs)
    with a p have "snd q = drop 1 (snd p)" by (simp split: if_splits)
    then show ?thesis ..
  qed
qed

lemma ms_StarG_suffix: "q \<in> set (ms (StarG P) (b, s)) \<Longrightarrow> \<exists>n. snd q = drop n s"
proof (induction s arbitrary: b)
  case Nil
  then have "snd q = drop 0 []" by simp
  then show ?case ..
next
  case (Cons c cs)
  show ?case
  proof (cases "P c \<and> q \<in> set (ms (StarG P) (c = newline, cs))")
    case True
    with Cons(1) obtain n where "snd q = drop n cs" by blast
    then have "snd q = drop (Suc n) (c # cs)" by simp
    then show ?thesis ..
  next
    case False
    with Cons(2) have "q = (b, c # cs)" by (auto split: if_splits)
    then have "snd q = drop 0 (c # cs)" by simp
    then show ?thesis ..
  qed
qed

lemma ms_StarL_suffix: "q \<in> set (ms (StarL P) (b, s)) \<Longrightarrow> \<exists>n. snd q = drop n s"
proof (induction s arbitrary: b)
  case Nil
  then have "snd q = drop 0 []" by simp
  then show ?case ..
next
  case (Cons c cs)
  show ?case
  proof (cases "P c \<and> q \<in> set (ms (StarL P) (c = newline, cs))")
    case True
    with Cons(1) obtain n where "snd q = drop n cs" by blast
    then have "snd q = drop (Suc n) (c # cs)" by simp
    then show ?thesis ..
  next
    case False
    with Cons(2) have "q = (b, c # cs)" by (auto split: if_splits)
    then have "snd q = drop 0 (c # cs)" by simp
    then show ?thesis ..
  qed
qed

lemma ms_suffix: "q \<in> set (ms r p) \<Longrightarrow> \<exists>n. snd q = drop n (snd p)"
proof (induction r arbitrary: p q)
  case (Cls P)
  then show ?case by (rule ms_Cls_suffix)
next
  case (Seq r1 r2)
  from Seq(3) obtain m where m: "m \<in> set (ms r1 p)" and q: "q \<in> set (ms r2 m)"
    by auto
  from Seq(1) [OF m] obtain n where n: "snd m = drop n (snd p)" by auto
  from Seq(2) [OF q] obtain k where "snd q = drop k (snd m)" by auto
  with n have "snd q = drop (n + k) (snd p)" by (simp add: add.commute)
  then show ?case ..
next
  case (Alt r1 r2)
  from Alt(3) have "q \<in> set (ms r1 p) \<or> q \<in> set (ms r2 p)" by simp
  then show ?case using Alt(1) Alt(2) by blast
next
  case (StarG P)
  then show ?case using ms_StarG_suffix [of q P "fst p" "snd p"] by simp
next
  case (StarL P)
  then show ?case using ms_StarL_suffix [of q P "fst p" "snd p"] by simp
next
  case Bol
  obtain b s where "p = (b, s)" by (cases p)
  with Bol have "snd q = drop 0 (snd p)" by (simp split: if_splits)
  then show ?case ..
next
  case Eol
  obtain b s where "p = (b, s)" by (cases p)
  with Eol have "snd q = drop 0 (snd p)" by (simp split: if_splits)
  then show ?case ..
qed

subsection \<open>Patterns that cannot match, and the pattern \<open>\s+\<close>\<close>

lemma ms_set: "(b', s') \<in> set (ms r (b, s)) \<Longrightarrow> set s' \<subseteq> set s"
  using ms_suffix [of "(b', s')" r "(b, s)"] by (auto dest: in_set_dropD)

lemma ms_length: "(b', s') \<in> set (ms r (b, s)) \<Longrightarrow> length s' \<le> length s"
  using ms_suffix [of "(b', s')" r "(b, s)"] by auto

lemma dead_Cls: 
  assumes "\<forall>c \<in> set s. \<not> P c" shows "dead (Cls P) s"
  unfolding dead_def
proof (intro allI)
  fix b n
  show "ms (Cls P) (b, drop n s) = []"
  proof (cases "drop n s")
    case Nil
    then show ?thesis by simp
  next
    case (Cons c cs)
    then have "c \<in> set (drop n s)" by simp
    then have "c \<in> set s" by (rule in_set_dropD)
    with assms Cons show ?thesis by simp
  qed
qed

lemma dead_Seq1: "dead r1 s \<Longrightarrow> dead (Seq r1 r2) s"
  by (simp add: dead_def)

lemma dead_Seq2: 
  assumes "dead r2 s" shows "dead (Seq r1 r2) s"
  unfolding dead_def
proof (intro allI)
  fix b n
  have "ms r2 q = []" if "q \<in> set (ms r1 (b, drop n s))" for q
  proof -
    from ms_suffix [OF that] obtain k where "snd q = drop k (drop n s)" by auto
    then have "q = (fst q, drop (k + n) s)" by (cases q) simp
    moreover from assms have "ms r2 (fst q, drop (k + n) s) = []"
      unfolding dead_def by blast
    ultimately show ?thesis by simp
  qed
  then show "ms (Seq r1 r2) (b, drop n s) = []" by simp
qed

lemma dead_Alt: "dead r1 s \<Longrightarrow> dead r2 s \<Longrightarrow> dead (Alt r1 r2) s"
  by (simp add: dead_def)

lemma dead_tl: "dead r (c # cs) \<Longrightarrow> dead r cs"
proof -
  assume "dead r (c # cs)"
  then have "ms r (b, drop (Suc n) (c # cs)) = []" for b n
    unfolding dead_def by blast
  then show "dead r cs" unfolding dead_def by simp
qed

lemma dead_here: "dead r s \<Longrightarrow> ms r (b, s) = []"
proof -
  assume "dead r s"
  then have "ms r (b, drop 0 s) = []" unfolding dead_def by blast
  then show ?thesis by simp
qed

lemma sub_dead: "dead r s \<Longrightarrow> sub r repl adv (b, s) = s"
proof (induction s arbitrary: adv b)
  case Nil
  from dead_here [OF Nil] show ?case by (simp add: sub.simps)
next
  case (Cons c cs)
  from dead_here [OF Cons(2)] have "ms r (b, c # cs) = []" .
  moreover have "sub r repl False (c = newline, cs) = cs"
    using Cons(1) [OF dead_tl [OF Cons(2)]] .
  ultimately show ?case by (simp add: sub.simps)
qed

lemma ms_StarG_hd: "\<exists>b' rest. ms (StarG P) (b, s) = (b', dropWhile P s) # rest"
proof (induction s arbitrary: b)
  case Nil
  then show ?case by simp
next
  case (Cons c cs)
  show ?case
  proof (cases "P c")
    case True
    from Cons [of "c = newline"] obtain b' rest
      where "ms (StarG P) (c = newline, cs) = (b', dropWhile P cs) # rest" by blast
    with True show ?thesis by simp
  next
    case False
    then show ?thesis by simp
  qed
qed

lemma ms_plusG_Nil: "ms (plusG P) (b, []) = []"
  by (simp add: plusG_def)

lemma ms_plusG_Cons:
  "ms (plusG P) (b, c # cs) = (if P c then ms (StarG P) (c = newline, cs) else [])"
  by (simp add: plusG_def)

lemma sub_plusG: "sub (plusG P) repl False (b, s) = collapse P repl s"
proof (induction s arbitrary: b rule: length_induct)
  case (1 s)
  show ?case
  proof (cases s)
    case Nil
    then show ?thesis by (simp add: sub.simps ms_plusG_Nil)
  next
    case (Cons c cs)
    show ?thesis
    proof (cases "P c")
      case False
      from 1 Cons have "sub (plusG P) repl False (c = newline, cs) = collapse P repl cs"
        by simp
      with False Cons show ?thesis by (simp add: sub.simps ms_plusG_Cons)
    next
      case True
      from ms_StarG_hd [of P "c = newline" cs] obtain b' rest
        where m: "ms (StarG P) (c = newline, cs) = (b', dropWhile P cs) # rest" by blast
      have l: "length (dropWhile P cs) < length s"
        using Cons length_dropWhile_le [of P cs] by simp
      with 1 have "sub (plusG P) repl False (b', dropWhile P cs) = collapse P repl (dropWhile P cs)"
        by blast
      with True Cons m l show ?thesis by (simp add: sub.simps ms_plusG_Cons)
    qed
  qed
qed

subsection \<open>The shape of a cleaned text\<close>

lemma collapse_keep:
  "s \<noteq> [] \<Longrightarrow> \<not> P (hd s) \<Longrightarrow> collapse P repl s = hd s # collapse P repl (tl s)"
  by (cases s) simp_all

lemma dropWhile_head: "dropWhile P s = [] \<or> \<not> P (hd (dropWhile P s))"
  by (metis hd_dropWhile)

lemma space_is_space: "is_space (CHR 0x20)"
  by (simp add: is_space_def)

lemma wtight_collapse: "wtight (collapse is_space '' '' s)"
proof (induction s rule: length_induct)
  case (1 s)
  show ?case
  proof (cases s)
    case Nil
    then show ?thesis by simp
  next
    case (Cons c cs)
    show ?thesis
    proof (cases "is_space c")
      case False
      from 1 Cons have "wtight (collapse is_space '' '' cs)" by simp
      with False Cons show ?thesis by simp
    next
      case True
      define d where "d = dropWhile is_space cs"
      have "length d < length s"
        unfolding d_def using Cons length_dropWhile_le [of is_space cs] by simp
      with 1 have w: "wtight (collapse is_space '' '' d)" by blast
      have h: "collapse is_space '' '' d = [] \<or> \<not> is_space (hd (collapse is_space '' '' d))"
      proof (cases "d = []")
        case True
        then show ?thesis by simp
      next
        case False
        with dropWhile_head [of is_space cs] have n: "\<not> is_space (hd d)"
          unfolding d_def by blast
        from collapse_keep [of d is_space "'' ''"] False n show ?thesis by simp
      qed
      have "collapse is_space '' '' s = CHR 0x20 # collapse is_space '' '' d"
        using True Cons unfolding d_def by simp
      with w h show ?thesis by (simp add: space_is_space)
    qed
  qed
qed

lemma wtight_dropWhile: "wtight s \<Longrightarrow> wtight (dropWhile Q s)"
  by (induction s) simp_all

lemma rstrip_Cons:
  "rev (dropWhile P (rev (c # cs))) =
     (if \<forall>x \<in> set (c # cs). P x then [] else c # rev (dropWhile P (rev cs)))"
  by (auto simp: dropWhile_append)

lemma rstrip_all: "\<forall>x \<in> set s. P x \<Longrightarrow> rev (dropWhile P (rev s)) = []"
  by simp

lemma rstrip_hd:
  "s \<noteq> [] \<Longrightarrow> \<not> P (hd s) \<Longrightarrow> rev (dropWhile P (rev s)) = hd s # rev (dropWhile P (rev (tl s)))"
proof -
  assume a: "s \<noteq> []" "\<not> P (hd s)"
  then obtain c cs where s: "s = c # cs" by (cases s) auto
  with a have "\<not> (\<forall>x \<in> set (c # cs). P x)" by auto
  with s show ?thesis using rstrip_Cons [of P c cs] by simp
qed

lemma tight_rstrip: "wtight s \<Longrightarrow> tight (rev (dropWhile is_space (rev s)))"
proof (induction s)
  case Nil
  then show ?case by simp
next
  case (Cons c cs)
  let ?r = "rev (dropWhile is_space (rev cs))"
  from Cons have t: "tight ?r" by simp
  show ?case
  proof (cases "\<forall>x \<in> set (c # cs). is_space x")
    case True
    then have "rev (dropWhile is_space (rev (c # cs))) = []" by (rule rstrip_all)
    then show ?thesis by (simp only: tight.simps)
  next
    case False
    then have e: "rev (dropWhile is_space (rev (c # cs))) = c # ?r"
      using rstrip_Cons [of is_space c cs] by simp
    have "c = CHR 0x20 \<and> ?r \<noteq> [] \<and> \<not> is_space (hd ?r)" if sp: "is_space c"
    proof -
      from sp False have ne: "cs \<noteq> []" by auto
      with Cons(2) sp have c: "c = CHR 0x20" and h: "\<not> is_space (hd cs)" by auto
      from rstrip_hd [of cs is_space] ne h
      have "?r = hd cs # rev (dropWhile is_space (rev (tl cs)))" by blast
      with c h show ?thesis by simp
    qed
    with t have "tight (c # ?r)" by simp
    with e show ?thesis by (simp only:)
  qed
qed

lemma strip_tight: "tight (strip (collapse is_space '' '' s))"
  unfolding strip_def
  using tight_rstrip [OF wtight_dropWhile [OF wtight_collapse]] .

lemma strip_hd: "strip s \<noteq> [] \<Longrightarrow> \<not> is_space (hd (strip s))"
proof -
  assume a: "strip s \<noteq> []"
  let ?u = "dropWhile is_space s"
  have ne: "?u \<noteq> []"
  proof
    assume "?u = []"
    then have "strip s = rev (dropWhile is_space (rev []))" by (simp only: strip_def)
    with a show False by simp
  qed
  with dropWhile_head [of is_space s] have h: "\<not> is_space (hd ?u)" by blast
  from rstrip_hd [of ?u is_space] ne h
  have "strip s = hd ?u # rev (dropWhile is_space (rev (tl ?u)))"
    unfolding strip_def by blast
  with h show ?thesis by simp
qed

lemma clean_text_tight: "tight (clean_text text) \<and> (clean_text text \<noteq> [] \<longrightarrow> \<not> is_space (hd (clean_text text)))"
proof (cases "text = []")
  case True
  then show ?thesis by (simp add: clean_text_def)
next
  case False
  let ?t = "re_sub line_edges [] (re_sub thinking_line [] (re_sub think_done [] (re_sub think_block [] text)))"
  have c: "clean_text text = strip (collapse is_space '' '' ?t)"
    using False by (simp add: clean_text_def Let_def re_sub_def spaces_def sub_plusG)
  show ?thesis unfolding c using strip_tight strip_hd by blast
qed

lemma tight_set: "tight s \<Longrightarrow> c \<in> set s \<Longrightarrow> is_space c \<Longrightarrow> c = CHR 0x20"
  by (induction s) auto

lemma tight_last: "tight s \<Longrightarrow> s \<noteq> [] \<Longrightarrow> \<not> is_space (last s)"
  by (induction s) (auto split: if_splits)

lemma tight_append: "tight (u @ v) \<Longrightarrow> tight v"
  by (induction u) auto

lemma tight_no_double: "tight s \<Longrightarrow> s \<noteq> u @ ''  '' @ v"
proof
  assume "tight s" "s = u @ ''  '' @ v"
  then have "tight (''  '' @ v)" using tight_append [of u "''  '' @ v"] by simp
  then show False by (simp add: space_is_space)
qed

lemma blank_is_space: "cset [CHR 0x20, CHR 0x09] False c \<Longrightarrow> is_space c"
  by (auto simp: cset_def is_space_def)

lemma newline_is_space: "is_space newline"
  by (simp add: is_space_def newline_def)

lemma newline_not_space: "newline \<noteq> CHR 0x20"
  by (simp add: newline_def)

lemma ms_Seq_Bol: "ms (Seq Bol r) (b, s) = (if b then ms r (b, s) else [])"
  by simp

lemma ms_line_edges_tight:
  assumes "tight s" and "b \<longrightarrow> s = [] \<or> \<not> is_space (hd s)"
  shows "ms line_edges (b, s) = []"
proof (cases s)
  case Nil
  then show ?thesis by (simp add: line_edges_def ms_plusG_Nil)
next
  case (Cons c cs)
  let ?B = "cset [CHR 0x20, CHR 0x09] False"
  have first: "ms (Seq Bol (plusG ?B)) (b, s) = []"
  proof (cases b)
    case True
    with assms(2) Cons have "\<not> is_space c" by simp
    then have "\<not> ?B c" using blank_is_space by blast
    with Cons show ?thesis by (simp add: ms_plusG_Cons)
  next
    case False
    then show ?thesis by simp
  qed
  have second: "ms (Seq (plusG ?B) Eol) (b, s) = []"
  proof (cases "?B c")
    case False
    with Cons show ?thesis by (simp add: ms_plusG_Cons)
  next
    case True
    then have "is_space c" by (rule blank_is_space)
    with assms(1) Cons obtain d ds where cs: "cs = d # ds" and d: "\<not> is_space d"
      by (cases cs) auto
    from d have nb: "\<not> ?B d" using blank_is_space by blast
    from d have nn: "d \<noteq> newline" using newline_is_space by auto
    from True Cons cs nb nn show ?thesis by (simp add: ms_plusG_Cons)
  qed
  from first second show ?thesis by (simp add: line_edges_def)
qed

lemma sub_line_edges_tight:
  "tight s \<Longrightarrow> (b \<longrightarrow> s = [] \<or> \<not> is_space (hd s)) \<Longrightarrow> sub line_edges [] False (b, s) = s"
proof (induction s arbitrary: b)
  case Nil
  from ms_line_edges_tight [OF Nil(1) Nil(2)] show ?case by (simp add: sub.simps)
next
  case (Cons c cs)
  from ms_line_edges_tight [OF Cons(2) Cons(3)] have m: "ms line_edges (b, c # cs) = []" .
  from Cons(2) have t: "tight cs" by simp
  have "c \<noteq> newline"
    using Cons(2) newline_is_space newline_not_space by auto
  then have "(c = newline) \<longrightarrow> cs = [] \<or> \<not> is_space (hd cs)" by simp
  from Cons(1) [OF t this] have "sub line_edges [] False (c = newline, cs) = cs" .
  with m show ?case by (simp add: sub.simps)
qed

lemma collapse_tight: "tight s \<Longrightarrow> collapse is_space '' '' s = s"
proof (induction s)
  case Nil
  then show ?case by simp
next
  case (Cons c cs)
  then have ih: "collapse is_space '' '' cs = cs" by simp
  show ?case
  proof (cases "is_space c")
    case False
    with ih show ?thesis by simp
  next
    case True
    with Cons(2) have c: "c = CHR 0x20" and ne: "cs \<noteq> []" and h: "\<not> is_space (hd cs)"
      by auto
    from ne h have "dropWhile is_space cs = cs" by (cases cs) auto
    with True ih c show ?thesis by simp
  qed
qed

lemma rstrip_tight: "tight s \<Longrightarrow> rev (dropWhile is_space (rev s)) = s"
proof (induction s)
  case Nil
  then show ?case by simp
next
  case (Cons c cs)
  then have ih: "rev (dropWhile is_space (rev cs)) = cs" by simp
  have "\<not> (\<forall>x \<in> set (c # cs). is_space x)"
  proof
    assume a: "\<forall>x \<in> set (c # cs). is_space x"
    then have "is_space c" by simp
    with Cons(2) have "cs \<noteq> []" and "\<not> is_space (hd cs)" by auto
    with a show False by (cases cs) auto
  qed
  with ih show ?case using rstrip_Cons [of is_space c cs] by simp
qed

lemma strip_tight_id: "tight s \<Longrightarrow> s = [] \<or> \<not> is_space (hd s) \<Longrightarrow> strip s = s"
proof -
  assume t: "tight s" and h: "s = [] \<or> \<not> is_space (hd s)"
  from h have "dropWhile is_space s = s" by (cases s) auto
  with rstrip_tight [OF t] show ?thesis by (simp add: strip_def)
qed

lemma clean_text_fixed:
  assumes "tight t" and "t = [] \<or> \<not> is_space (hd t)"
    and "re_sub think_block [] t = t" and "re_sub think_done [] t = t"
    and "re_sub thinking_line [] t = t"
  shows "clean_text t = t"
proof (cases "t = []")
  case True
  then show ?thesis by (simp add: clean_text_def)
next
  case False
  have e: "re_sub line_edges [] t = t"
    unfolding re_sub_def using sub_line_edges_tight [OF assms(1), of True] assms(2) by simp
  have s: "re_sub spaces '' '' t = t"
    unfolding re_sub_def spaces_def sub_plusG using collapse_tight [OF assms(1)] .
  from False show ?thesis
    by (simp add: clean_text_def Let_def assms(3-5) e s strip_tight_id [OF assms(1) assms(2)])
qed


text \<open>
  C9. Whatever the input, the cleaned text has no white space but single spaces
  between other characters: no tab, no line feed, no two spaces in a row, no white
  space at its beginning or end; the empty input gives the empty text.
\<close>

theorem clean_text_normalized:
  "(\<forall>c \<in> set (clean_text s). is_space c \<longrightarrow> c = CHR 0x20) \<and>
   CHR 0x09 \<notin> set (clean_text s) \<and> newline \<notin> set (clean_text s) \<and>
   (\<forall>u v. clean_text s \<noteq> u @ ''  '' @ v) \<and>
   (clean_text s \<noteq> [] \<longrightarrow>
      \<not> is_space (hd (clean_text s)) \<and> \<not> is_space (last (clean_text s))) \<and>
   clean_text [] = []"
proof -
  from clean_text_tight [of s] have t: "tight (clean_text s)"
    and h: "clean_text s \<noteq> [] \<longrightarrow> \<not> is_space (hd (clean_text s))" by auto
  have a: "\<forall>c \<in> set (clean_text s). is_space c \<longrightarrow> c = CHR 0x20"
    using tight_set [OF t] by blast
  have "is_space (CHR 0x09)" by (simp add: is_space_def)
  with a have b: "CHR 0x09 \<notin> set (clean_text s)" by auto
  from a newline_is_space newline_not_space have c: "newline \<notin> set (clean_text s)" by auto
  have d: "\<forall>u v. clean_text s \<noteq> u @ ''  '' @ v" using tight_no_double [OF t] by blast
  have e: "clean_text s \<noteq> [] \<longrightarrow> \<not> is_space (last (clean_text s))"
    using tight_last [OF t] by blast
  have f: "clean_text [] = []" by (simp add: clean_text_def)
  from a b c d e f h show ?thesis by blast
qed

theorem clean_text_normalized_witness:
  "clean_text [CHR 0x09, CHR ''a'', CHR 0x0A, CHR 0x20, CHR ''b'', CHR 0x20] = ''a b'' \<and>
   \<not> is_space (hd (clean_text [CHR 0x09, CHR ''a'', CHR 0x0A, CHR 0x20, CHR ''b'', CHR 0x20])) \<and>
   \<not> is_space (last (clean_text [CHR 0x09, CHR ''a'', CHR 0x0A, CHR 0x20, CHR ''b'', CHR 0x20]))"
proof -
  have c: "clean_text [CHR 0x09, CHR ''a'', CHR 0x0A, CHR 0x20, CHR ''b'', CHR 0x20] = ''a b''"
    by code_simp
  then have "clean_text [CHR 0x09, CHR ''a'', CHR 0x0A, CHR 0x20, CHR ''b'', CHR 0x20] \<noteq> []"
    by simp
  with clean_text_normalized [of "[CHR 0x09, CHR ''a'', CHR 0x0A, CHR 0x20, CHR ''b'', CHR 0x20]"] c
  show ?thesis by blast
qed

text \<open>
  C3, as the specification has it, fails: removing one think block can put the
  pieces of another together, which only a second cleaning removes.
\<close>

theorem clean_text_not_idempotent:
  "clean_text (clean_text ''<t<think></think>hink>a</think>'') \<noteq>
     clean_text ''<t<think></think>hink>a</think>''"
proof -
  have 1: "clean_text ''<t<think></think>hink>a</think>'' = ''<think>a</think>''" by code_simp
  have 2: "clean_text ''<think>a</think>'' = []" by code_simp
  show ?thesis unfolding 1 2 by simp
qed


text \<open>
  C3, amended. Cleaning a cleaned text changes nothing, provided the three removals
  (think blocks, the think ... done thinking phrase, lines made of the word thinking)
  find nothing left to remove in it.
\<close>

theorem clean_text_idempotent_without_residue:
  assumes "re_sub think_block [] (clean_text s) = clean_text s"
    and "re_sub think_done [] (clean_text s) = clean_text s"
    and "re_sub thinking_line [] (clean_text s) = clean_text s"
  shows "clean_text (clean_text s) = clean_text s"
proof -
  from clean_text_tight [of s] have "tight (clean_text s)"
    and "clean_text s = [] \<or> \<not> is_space (hd (clean_text s))" by auto
  then show ?thesis using assms by (rule clean_text_fixed)
qed

theorem clean_text_idempotent_without_residue_witness:
  "clean_text (clean_text ''<think>x</think> a  b'') = clean_text ''<think>x</think> a  b'' \<and>
   clean_text ''<think>x</think> a  b'' = ''a b''"
proof -
  have c: "clean_text ''<think>x</think> a  b'' = ''a b''" by code_simp
  have 1: "re_sub think_block [] ''a b'' = ''a b''" by code_simp
  have 2: "re_sub think_done [] ''a b'' = ''a b''" by code_simp
  have 3: "re_sub thinking_line [] ''a b'' = ''a b''" by code_simp
  from clean_text_idempotent_without_residue [of "''<think>x</think> a  b''"] 1 2 3
  show ?thesis unfolding c by simp
qed



subsection \<open>A text made of white space and a thinking line\<close>

lemma lower_cases: "lower c = c \<or> lower c \<in> set ''abcdefghijklmnopqrstuvwxyz''"
proof (cases "map_of (zip ''ABCDEFGHIJKLMNOPQRSTUVWXYZ'' ''abcdefghijklmnopqrstuvwxyz'') c")
  case None
  then show ?thesis by (simp add: lower_def)
next
  case (Some l)
  then have "(c, l) \<in> set (zip ''ABCDEFGHIJKLMNOPQRSTUVWXYZ'' ''abcdefghijklmnopqrstuvwxyz'')"
    by (rule map_of_SomeD)
  then have m: "l \<in> set ''abcdefghijklmnopqrstuvwxyz''" by (rule set_zip_rightD)
  from Some have "lower c = l" by (simp only: lower_def option.case)
  with m show ?thesis by blast
qed

lemma lower_concrete:
  "lower CHR ''T'' = CHR ''t''" "lower CHR ''t'' = CHR ''t''"
  "lower CHR ''H'' = CHR ''h''" "lower CHR ''h'' = CHR ''h''"
  "lower CHR ''I'' = CHR ''i''" "lower CHR ''i'' = CHR ''i''"
  "lower CHR ''N'' = CHR ''n''" "lower CHR ''n'' = CHR ''n''"
  "lower CHR ''K'' = CHR ''k''" "lower CHR ''k'' = CHR ''k''"
  "lower CHR ''G'' = CHR ''g''" "lower CHR ''g'' = CHR ''g''"
  "lower CHR ''<'' = CHR ''<''" "lower CHR ''.'' = CHR ''.''"
  "lower CHR 0x20 = CHR 0x20" "lower CHR 0x09 = CHR 0x09"
  by (simp_all add: lower_def)

lemma space_lower: "is_space c \<Longrightarrow> lower c = c"
  unfolding is_space_def by (elim disjE) (simp_all add: lower_def)

lemma blank_space: "blank c \<Longrightarrow> is_space c"
proof -
  assume "blank c"
  then have "c = CHR 0x20 \<or> c = CHR 0x09 \<or> lower c = CHR 0x20 \<or> lower c = CHR 0x09"
    by (auto simp: blank_def cset_def lower_concrete)
  with lower_cases [of c] have "c = CHR 0x20 \<or> c = CHR 0x09" by auto
  then show ?thesis by (auto simp: is_space_def)
qed

lemma space_not_letter:
  assumes "is_space c"
  shows "\<not> cset ''Tt'' True c" "\<not> cset ''<'' True c" "\<not> cset ''.'' True c"
proof -
  from assms have l: "lower c = c" by (rule space_lower)
  from assms have n: "c \<noteq> CHR ''t''" "c \<noteq> CHR ''T''" "c \<noteq> CHR ''<''" "c \<noteq> CHR ''.''"
    by (auto simp: is_space_def)
  from l n show "\<not> cset ''Tt'' True c" by (simp add: cset_def lower_concrete)
  from l n show "\<not> cset ''<'' True c" by (simp add: cset_def lower_concrete)
  from l n show "\<not> cset ''.'' True c" by (simp add: cset_def lower_concrete)
qed

lemma letter_facts:
  assumes "lower c \<in> set ''thinking''"
  shows "\<not> is_space c" "\<not> blank c" "\<not> cset ''<'' True c" "\<not> cset ''.'' True c"
proof -
  show s: "\<not> is_space c"
  proof
    assume a: "is_space c"
    then have "lower c = c" by (rule space_lower)
    with assms have "c \<in> set ''thinking''" by simp
    with a show False by (auto simp: is_space_def)
  qed
  from s blank_space show "\<not> blank c" by blast
  from assms have "lower c \<noteq> CHR ''<''" "lower c \<noteq> CHR ''.''" by auto
  moreover from this have "c \<noteq> CHR ''<''" "c \<noteq> CHR ''.''"
    using lower_concrete by auto
  ultimately show "\<not> cset ''<'' True c" "\<not> cset ''.'' True c"
    by (simp_all add: cset_def lower_concrete)
qed

lemma ms_Seq_Cls:
  "ms (Seq (Cls P) r) (b, c # cs) = (if P c then ms r (c = newline, cs) else [])"
  by simp

lemma ms_Seq_Cls_Nil: "ms (Seq (Cls P) r) (b, []) = []"
  by simp

lemma ms_StarG_then_Cls:
  assumes "\<forall>c. P c \<longrightarrow> \<not> Q c"
  shows "dropWhile P s = [] \<or> \<not> Q (hd (dropWhile P s)) \<Longrightarrow>
         ms (Seq (StarG P) (Seq (Cls Q) r)) (b, s) = []"
proof (induction s arbitrary: b)
  case Nil
  then show ?case by simp
next
  case (Cons c cs)
  show ?case
  proof (cases "P c")
    case True
    with Cons(2) have "dropWhile P cs = [] \<or> \<not> Q (hd (dropWhile P cs))" by simp
    from Cons(1) [OF this] have "ms (Seq (StarG P) (Seq (Cls Q) r)) (c = newline, cs) = []" .
    moreover from True assms have "\<not> Q c" by blast
    ultimately show ?thesis using True by simp
  next
    case False
    with Cons(2) have "\<not> Q c" by simp
    with False show ?thesis by simp
  qed
qed

lemma first_Seq:
  "ms r1 p = q # qs \<Longrightarrow> ms r2 q = x # xs \<Longrightarrow> \<exists>ys. ms (Seq r1 r2) p = x # ys"
  by simp

lemma thinking_line_unfold:
  "thinking_line =
     Seq Bol (Seq (StarG blank) (Seq (Cls (cset ''Tt'' True)) (Seq (Cls (cset ''Hh'' True))
       (Seq (Cls (cset ''Ii'' True)) (Seq (Cls (cset ''Nn'' True)) (Seq (Cls (cset ''Kk'' True))
       (Seq (Cls (cset ''Ii'' True)) (Seq (Cls (cset ''Nn'' True)) (Seq (Cls (cset ''Gg'' True))
       (Seq (StarG blank) Eol))))))))))"
  by (simp add: thinking_line_def think_word_def)

lemma blank_not_T: "blank c \<Longrightarrow> \<not> cset ''Tt'' True c"
  using blank_space space_not_letter(1) by blast

text \<open>No match starts inside leading white-space lines.\<close>

lemma thinking_line_skips:
  assumes "\<forall>c \<in> set A. is_space c" and "A \<noteq> []" and "last A = newline"
  shows "ms thinking_line (b, A @ Y) = []"
proof -
  have nb: "\<not> blank newline"
    by (simp add: blank_def cset_def lower_def newline_def)
  from assms(2,3) have "newline \<in> set A" using last_in_set by metis
  with nb have ex: "\<exists>x \<in> set A. \<not> blank x" by blast
  then obtain x where "x \<in> set A" and "\<not> blank x" by blast
  then have d: "dropWhile blank (A @ Y) = dropWhile blank A @ Y"
    by (rule dropWhile_append1)
  from ex have ne: "dropWhile blank A \<noteq> []" by (simp add: dropWhile_eq_Nil_conv)
  then have "hd (dropWhile blank A) \<in> set A"
    by (metis hd_in_set set_dropWhileD)
  with assms(1) have "is_space (hd (dropWhile blank A))" by blast
  then have "\<not> cset ''Tt'' True (hd (dropWhile blank A))" by (rule space_not_letter(1))
  with d ne have e: "dropWhile blank (A @ Y) = [] \<or> \<not> cset ''Tt'' True (hd (dropWhile blank (A @ Y)))"
    by simp
  have n: "\<forall>c. blank c \<longrightarrow> \<not> cset ''Tt'' True c" using blank_not_T by blast
  have f: "ms (Seq (StarG blank) (Seq (Cls (cset ''Tt'' True)) r)) (b, A @ Y) = []" for r
    using ms_StarG_then_Cls [of blank "cset ''Tt'' True" "A @ Y" r b] n e by blast
  show ?thesis unfolding thinking_line_unfold ms_Seq_Bol f by simp
qed

lemma sub_thinking_line_skips:
  "\<forall>c \<in> set A. is_space c \<Longrightarrow> A \<noteq> [] \<Longrightarrow> last A = newline \<Longrightarrow>
     sub thinking_line [] False (b, A @ Y) = A @ sub thinking_line [] False (True, Y)"
proof (induction A arbitrary: b)
  case Nil
  then show ?case by simp
next
  case (Cons a A)
  from thinking_line_skips [OF Cons(2) Cons(3) Cons(4)]
  have m: "ms thinking_line (b, (a # A) @ Y) = []" .
  show ?case
  proof (cases "A = []")
    case True
    with Cons(4) have "a = newline" by simp
    with m True show ?thesis by (simp add: sub.simps)
  next
    case False
    with Cons(2,4) have "\<forall>c \<in> set A. is_space c" and "last A = newline" by auto
    from Cons(1) [OF this(1) False this(2)]
    have "sub thinking_line [] False (a = newline, A @ Y) = A @ sub thinking_line [] False (True, Y)" .
    with m show ?thesis by (simp add: sub.simps)
  qed
qed

lemma thinking_line_dead_on_space:
  assumes "\<forall>c \<in> set D. is_space c"
  shows "dead thinking_line D"
proof -
  from assms have "\<forall>c \<in> set D. \<not> cset ''Tt'' True c" using space_not_letter(1) by blast
  then have "dead (Cls (cset ''Tt'' True)) D" by (rule dead_Cls)
  then show ?thesis
    unfolding thinking_line_unfold
    by (intro dead_Seq2 [of _ _ Bol] dead_Seq2 [of _ _ "StarG blank"] dead_Seq1)
qed

lemma thinking_line_matches:
  assumes "\<forall>c \<in> set B. blank c" and "\<forall>c \<in> set C. blank c"
    and "D = [] \<or> hd D = newline" and "map lower w = ''thinking''"
  shows "\<exists>b2 ys. ms thinking_line (True, B @ w @ C @ D) = (b2, D) # ys"
proof -
  from assms(4) obtain c1 c2 c3 c4 c5 c6 c7 c8 where w: "w = [c1, c2, c3, c4, c5, c6, c7, c8]"
    and l: "lower c1 = CHR ''t''" "lower c2 = CHR ''h''" "lower c3 = CHR ''i''"
      "lower c4 = CHR ''n''" "lower c5 = CHR ''k''" "lower c6 = CHR ''i''"
      "lower c7 = CHR ''n''" "lower c8 = CHR ''g''"
    by (auto simp: map_eq_Cons_conv)
  have cs: "cset ''Tt'' True c1" "cset ''Hh'' True c2" "cset ''Ii'' True c3" "cset ''Nn'' True c4"
    "cset ''Kk'' True c5" "cset ''Ii'' True c6" "cset ''Nn'' True c7" "cset ''Gg'' True c8"
    using l by (simp_all add: cset_def lower_concrete)
  from l have "lower c1 \<in> set ''thinking''" by simp
  then have nb1: "\<not> blank c1" by (rule letter_facts(2))
  have nbn: "\<not> blank newline"
    by (simp add: blank_def cset_def lower_def newline_def)
  \<comment> \<open>the trailing blanks and the end of the line\<close>
  have dD: "dropWhile blank D = D" using assms(3) nbn by (cases D) auto
  have "dropWhile blank (C @ D) = D"
    using assms(2) dD by (simp add: dropWhile_append2)
  with ms_StarG_hd [of blank "c8 = newline" "C @ D"] obtain b2 rest
    where t1: "ms (StarG blank) (c8 = newline, C @ D) = (b2, D) # rest" by auto
  have t2: "ms Eol (b2, D) = (b2, D) # []" using assms(3) by auto
  from first_Seq [OF t1 t2] obtain ys
    where tail: "ms (Seq (StarG blank) Eol) (c8 = newline, C @ D) = (b2, D) # ys" by blast
  \<comment> \<open>the leading blanks\<close>
  have "dropWhile blank (B @ w @ C @ D) = w @ C @ D"
    using assms(1) nb1 w by (simp add: dropWhile_append2)
  with ms_StarG_hd [of blank True "B @ w @ C @ D"] obtain b1 rest1
    where h1: "ms (StarG blank) (True, B @ w @ C @ D) = (b1, w @ C @ D) # rest1" by auto
  let ?R = "Seq (Cls (cset ''Tt'' True)) (Seq (Cls (cset ''Hh'' True))
       (Seq (Cls (cset ''Ii'' True)) (Seq (Cls (cset ''Nn'' True)) (Seq (Cls (cset ''Kk'' True))
       (Seq (Cls (cset ''Ii'' True)) (Seq (Cls (cset ''Nn'' True)) (Seq (Cls (cset ''Gg'' True))
       (Seq (StarG blank) Eol))))))))"
  have "ms ?R (b1, w @ C @ D) = ms (Seq (StarG blank) Eol) (c8 = newline, C @ D)"
    unfolding w by (simp only: append_Cons append_Nil ms_Seq_Cls cs if_True)
  with tail have h2: "ms ?R (b1, w @ C @ D) = (b2, D) # ys" by (simp only:)
  from first_Seq [OF h1 h2] obtain zs
    where "ms (Seq (StarG blank) ?R) (True, B @ w @ C @ D) = (b2, D) # zs" by blast
  then have "ms thinking_line (True, B @ w @ C @ D) = (b2, D) # zs"
    unfolding thinking_line_unfold by (simp only: ms_Seq_Bol if_True)
  then show ?thesis by blast
qed

lemma sub_thinking_line_only:
  assumes "\<forall>c \<in> set A. is_space c" and "A = [] \<or> last A = newline"
    and "\<forall>c \<in> set B. blank c" and "\<forall>c \<in> set C. blank c"
    and "\<forall>c \<in> set D. is_space c" and "D = [] \<or> hd D = newline"
    and "map lower w = ''thinking''"
  shows "re_sub thinking_line [] (A @ B @ w @ C @ D) = A @ D"
proof -
  from thinking_line_matches [OF assms(3,4,6,7)] obtain b2 ys
    where m: "ms thinking_line (True, B @ w @ C @ D) = (b2, D) # ys" by blast
  from assms(7) have "length (map lower w) = length ''thinking''" by simp
  then have "length w = 8" by simp
  then have len: "length D < length (B @ w @ C @ D)" by simp
  have "sub thinking_line [] False (b2, D) = D"
    using sub_dead [OF thinking_line_dead_on_space [OF assms(5)]] .
  with m len have here: "sub thinking_line [] False (True, B @ w @ C @ D) = D"
    by (simp add: sub.simps [of thinking_line "[]" False True "B @ w @ C @ D"])
  show ?thesis
  proof (cases "A = []")
    case True
    with here show ?thesis by (simp add: re_sub_def)
  next
    case False
    with assms(2) have "last A = newline" by simp
    from sub_thinking_line_skips [OF assms(1) False this, of True "B @ w @ C @ D"] here
    show ?thesis by (simp add: re_sub_def)
  qed
qed

lemma sub_set: "set (sub r [] adv (b, s)) \<subseteq> set s"
proof (induction s arbitrary: adv b rule: length_induct)
  case (1 s)
  have shorter: "set (sub r [] a (b', s')) \<subseteq> set s"
    if "(b', s') \<in> set (ms r (b0, s))" and "length s' < length s" for a b' s' b0
  proof -
    from 1 that(2) have "set (sub r [] a (b', s')) \<subseteq> set s'" by blast
    with ms_set [OF that(1)] show ?thesis by blast
  qed
  have step: "set (case s of [] \<Rightarrow> [] | c # cs \<Rightarrow> c # sub r [] False (c = newline, cs)) \<subseteq> set s"
  proof (cases s)
    case Nil
    then show ?thesis by simp
  next
    case (Cons c cs)
    with 1 have "set (sub r [] False (c = newline, cs)) \<subseteq> set cs" by simp
    with Cons show ?thesis by auto
  qed
  have adv_case: "set (sub r [] True (b0, s)) \<subseteq> set s" for b0
  proof (cases "filter (\<lambda>(b', s'). length s' < length s) (ms r (b0, s))")
    case Nil
    with step show ?thesis by (simp add: sub.simps [of r "[]" True b0 s])
  next
    case (Cons p ps)
    obtain b' s' where p: "p = (b', s')" by (cases p)
    from Cons have "p \<in> set (filter (\<lambda>(b', s'). length s' < length s) (ms r (b0, s)))" by simp
    with p have "(b', s') \<in> set (ms r (b0, s))" and "length s' < length s" by auto
    from shorter [OF this] have "set (sub r [] False (b', s')) \<subseteq> set s" .
    with Cons p show ?thesis by (simp add: sub.simps [of r "[]" True b0 s])
  qed
  show ?case
  proof (cases adv)
    case True
    with adv_case show ?thesis by simp
  next
    case False
    show ?thesis
    proof (cases "ms r (b, s)")
      case Nil
      with step False show ?thesis by (simp add: sub.simps [of r "[]" False b s])
    next
      case (Cons p ps)
      obtain b' s' where p: "p = (b', s')" by (cases p)
      show ?thesis
      proof (cases "length s' < length s")
        case True
        from Cons p have "(b', s') \<in> set (ms r (b, s))" by simp
        from shorter [OF this True] have "set (sub r [] False (b', s')) \<subseteq> set s" .
        with Cons p True False show ?thesis by (simp add: sub.simps [of r "[]" False b s])
      next
        case n: False
        from adv_case [of b] Cons p n False show ?thesis
          by (simp add: sub.simps [of r "[]" False b s])
      qed
    qed
  qed
qed

lemma strip_all_space:
  assumes "\<forall>c \<in> set E. is_space c"
  shows "strip (collapse is_space '' '' E) = []"
proof (cases E)
  case Nil
  then show ?thesis by (simp add: strip_def)
next
  case (Cons c cs)
  with assms have d: "dropWhile is_space cs = []" and c: "is_space c" by auto
  from c have "collapse is_space '' '' (c # cs) =
      '' '' @ collapse is_space '' '' (dropWhile is_space cs)" by simp
  then have "collapse is_space '' '' E = '' ''" unfolding d Cons by simp
  then show ?thesis by (simp add: strip_def space_is_space)
qed

lemma think_block_head: "\<exists>R. think_block = Seq (Cls (cset ''<'' True)) R"
  by (simp add: think_block_def)

lemma think_done_head:
  "\<exists>R. think_done =
     Seq (Cls (cset ''Tt'' True)) (Seq (Cls (cset ''Hh'' True)) (Seq (Cls (cset ''Ii'' True))
       (Seq (Cls (cset ''Nn'' True)) (Seq (Cls (cset ''Kk'' True)) (Seq (StarG dot_or_space)
         (Seq (Seq (Cls (cset ''.'' True)) (StarG (cset ''.'' True))) R))))))"
  by (simp add: think_done_def think_word_def plusG_def lit_def)

lemma think_block_dead: 
  assumes "\<forall>c \<in> set s. \<not> cset ''<'' True c" shows "dead think_block s"
proof -
  from think_block_head obtain R where r: "think_block = Seq (Cls (cset ''<'' True)) R" ..
  from assms have "dead (Cls (cset ''<'' True)) s" by (rule dead_Cls)
  then show ?thesis unfolding r by (rule dead_Seq1)
qed

lemma think_done_dead: 
  assumes "\<forall>c \<in> set s. \<not> cset ''.'' True c" shows "dead think_done s"
proof -
  from think_done_head obtain R where r: "think_done =
     Seq (Cls (cset ''Tt'' True)) (Seq (Cls (cset ''Hh'' True)) (Seq (Cls (cset ''Ii'' True))
       (Seq (Cls (cset ''Nn'' True)) (Seq (Cls (cset ''Kk'' True)) (Seq (StarG dot_or_space)
         (Seq (Seq (Cls (cset ''.'' True)) (StarG (cset ''.'' True))) R))))))" ..
  from assms have "dead (Cls (cset ''.'' True)) s" by (rule dead_Cls)
  then have "dead (Seq (Seq (Cls (cset ''.'' True)) (StarG (cset ''.'' True))) R) s"
    by (intro dead_Seq1)
  then show ?thesis unfolding r
    by (rule dead_Seq2 [OF dead_Seq2 [OF dead_Seq2 [OF dead_Seq2 [OF dead_Seq2 [OF dead_Seq2]]]]])
qed


text \<open>
  C4, as the specification has it, fails: the text made of the word thinking, a
  carriage return and a line feed holds nothing but white space and that word on
  its line, and is cleaned to the word thinking, not to the empty text. Under
  \<open>re.MULTILINE\<close> the end of a line is matched before a line feed only, and the
  pattern allows spaces and tabs only around the word.
\<close>

theorem thinking_line_with_carriage_return:
  "is_space (CHR 0x0D) \<and> is_space (CHR 0x0A) \<and>
   clean_text (''thinking'' @ [CHR 0x0D, CHR 0x0A]) = ''thinking'' \<and>
   clean_text (''thinking'' @ [CHR 0x0D, CHR 0x0A]) \<noteq> []"
proof -
  have c: "clean_text (''thinking'' @ [CHR 0x0D, CHR 0x0A]) = ''thinking''" by code_simp
  show ?thesis unfolding c by (simp add: is_space_def)
qed

text \<open>
  C4, amended. \<open><think>internal reasoning</think>Final answer here\<close> is cleaned to
  \<open>Final answer here\<close>. A text made of white space \<open>A\<close> that is empty or ends its
  line with a line feed, the word thinking in any mix of cases between spaces and
  tabs \<open>B\<close> and \<open>C\<close>, and white space \<open>D\<close> that is empty or begins with a line feed,
  is cleaned to the empty text.
\<close>

theorem clean_text_examples:
  assumes "\<forall>c \<in> set A. is_space c" and "A = [] \<or> last A = newline"
    and "\<forall>c \<in> set B. blank c" and "\<forall>c \<in> set C. blank c"
    and "\<forall>c \<in> set D. is_space c" and "D = [] \<or> hd D = newline"
    and "map lower w = ''thinking''"
  shows "clean_text ''<think>internal reasoning</think>Final answer here'' = ''Final answer here'' \<and>
         clean_text (A @ B @ w @ C @ D) = []"
proof -
  have first: "clean_text ''<think>internal reasoning</think>Final answer here'' = ''Final answer here''"
    by code_simp
  let ?X = "A @ B @ w @ C @ D"
  have wl: "\<forall>c \<in> set w. lower c \<in> set ''thinking''"
  proof
    fix c assume "c \<in> set w"
    then have "lower c \<in> set (map lower w)" by simp
    with assms(7) show "lower c \<in> set ''thinking''" by (simp only:)
  qed
  have chars: "is_space c \<or> lower c \<in> set ''thinking''" if "c \<in> set ?X" for c
    using that assms(1,3,4,5) wl blank_space by auto
  have no_lt: "\<forall>c \<in> set ?X. \<not> cset ''<'' True c"
    using chars space_not_letter(2) letter_facts(3) by blast
  have no_dot: "\<forall>c \<in> set ?X. \<not> cset ''.'' True c"
    using chars space_not_letter(3) letter_facts(4) by blast
  have s1: "re_sub think_block [] ?X = ?X"
    unfolding re_sub_def using sub_dead [OF think_block_dead [OF no_lt]] .
  have s2: "re_sub think_done [] ?X = ?X"
    unfolding re_sub_def using sub_dead [OF think_done_dead [OF no_dot]] .
  have s3: "re_sub thinking_line [] ?X = A @ D"
    using assms by (rule sub_thinking_line_only)
  have "set (re_sub line_edges [] (A @ D)) \<subseteq> set (A @ D)"
    unfolding re_sub_def by (rule sub_set)
  with assms(1,5) have sp: "\<forall>c \<in> set (re_sub line_edges [] (A @ D)). is_space c" by auto
  have col: "re_sub spaces '' '' E = collapse is_space '' '' E" for E
    by (simp add: re_sub_def spaces_def sub_plusG)
  have s5: "strip (re_sub spaces '' '' (re_sub line_edges [] (A @ D))) = []"
    unfolding col using sp by (rule strip_all_space)
  from assms(7) have "w \<noteq> []" by auto
  then have "?X \<noteq> []" by simp
  then have "clean_text ?X = []"
    unfolding clean_text_def Let_def s1 s2 s3 s5 by simp
  with first show ?thesis by simp
qed

theorem clean_text_examples_witness:
  "clean_text ([newline] @ '' '' @ ''ThInKiNg'' @ [CHR 0x09] @ [newline, CHR 0x0D]) = []"
proof -
  have 1: "\<forall>c \<in> set [newline]. is_space c" by (simp add: newline_is_space)
  have 2: "[newline] = [] \<or> last [newline] = newline" by simp
  have 3: "\<forall>c \<in> set '' ''. blank c" by (simp add: blank_def cset_def)
  have 4: "\<forall>c \<in> set [CHR 0x09]. blank c" by (simp add: blank_def cset_def)
  have 5: "\<forall>c \<in> set [newline, CHR 0x0D]. is_space c" by (simp add: is_space_def newline_def)
  have 6: "[newline, CHR 0x0D] = [] \<or> hd [newline, CHR 0x0D] = newline" by simp
  have 7: "map lower ''ThInKiNg'' = ''thinking''" by (simp add: lower_def)
  from clean_text_examples [OF 1 2 3 4 5 6 7] show ?thesis by blast
qed

end
